theory Spec2Isabelle
  imports Complex_Main "HOL-Library.Word"
begin

unbundle bit_operations_syntax

section \<open>SHA-256 as computed by \<^verbatim>\<open>createHash('sha256').update(data).digest('hex')\<close>\<close>

text \<open>
  The ledger engine identifies a block by the hexadecimal SHA-256 digest of a string.
  The digest is the one of FIPS 180-4: the message bytes are padded to a multiple of 64,
  each 64-byte chunk is expanded to 64 words and fed through 64 rounds, and the eight
  state words are printed big-endian, two lowercase hexadecimal digits per byte.
  A JavaScript string is hashed through its UTF-8 encoding; an Isabelle \<open>string\<close> is a
  list of bytes, so a string here stands for its UTF-8 bytes. Bytes are kept in 32-bit
  words, the round constants are written in decimal.
\<close>

type_synonym w32 = "32 word"

definition rotr :: "nat \<Rightarrow> w32 \<Rightarrow> w32" where
  "rotr n x = or (drop_bit n x) (push_bit (32 - n) x)"

definition Ch :: "w32 \<Rightarrow> w32 \<Rightarrow> w32 \<Rightarrow> w32" where
  "Ch x y z = xor (and x y) (and (not x) z)"

definition Maj :: "w32 \<Rightarrow> w32 \<Rightarrow> w32 \<Rightarrow> w32" where
  "Maj x y z = xor (xor (and x y) (and x z)) (and y z)"

definition bsig0 :: "w32 \<Rightarrow> w32" where
  "bsig0 x = xor (xor (rotr 2 x) (rotr 13 x)) (rotr 22 x)"

definition bsig1 :: "w32 \<Rightarrow> w32" where
  "bsig1 x = xor (xor (rotr 6 x) (rotr 11 x)) (rotr 25 x)"

definition ssig0 :: "w32 \<Rightarrow> w32" where
  "ssig0 x = xor (xor (rotr 7 x) (rotr 18 x)) (drop_bit 3 x)"

definition ssig1 :: "w32 \<Rightarrow> w32" where
  "ssig1 x = xor (xor (rotr 17 x) (rotr 19 x)) (drop_bit 10 x)"

definition sha256_K :: "w32 list" where
  "sha256_K = [
    1116352408, 1899447441, 3049323471, 3921009573, 961987163, 1508970993,
    2453635748, 2870763221, 3624381080, 310598401, 607225278, 1426881987,
    1925078388, 2162078206, 2614888103, 3248222580, 3835390401, 4022224774,
    264347078, 604807628, 770255983, 1249150122, 1555081692, 1996064986,
    2554220882, 2821834349, 2952996808, 3210313671, 3336571891, 3584528711,
    113926993, 338241895, 666307205, 773529912, 1294757372, 1396182291,
    1695183700, 1986661051, 2177026350, 2456956037, 2730485921, 2820302411,
    3259730800, 3345764771, 3516065817, 3600352804, 4094571909, 275423344,
    430227734, 506948616, 659060556, 883997877, 958139571, 1322822218,
    1537002063, 1747873779, 1955562222, 2024104815, 2227730452, 2361852424,
    2428436474, 2756734187, 3204031479, 3329325298]"

type_synonym sha_state = "w32 \<times> w32 \<times> w32 \<times> w32 \<times> w32 \<times> w32 \<times> w32 \<times> w32"

definition sha256_init :: sha_state where
  "sha256_init = (1779033703, 3144134277, 1013904242, 2773480762,
                  1359893119, 2600822924, 528734635, 1541459225)"

definition be64 :: "64 word \<Rightarrow> w32 list" where
  "be64 n = map (\<lambda>i. ucast (and (drop_bit (8 * i) n) 255)) [7, 6, 5, 4, 3, 2, 1, 0]"

definition sha256_pad :: "w32 list \<Rightarrow> w32 list" where
  "sha256_pad ms =
     ms @ [128] @ replicate ((64 - (length ms + 9) mod 64) mod 64) 0
        @ be64 (8 * of_nat (length ms))"

primrec chunks64 :: "nat \<Rightarrow> w32 list \<Rightarrow> w32 list list" where
  "chunks64 0 bs = []"
| "chunks64 (Suc n) bs = take 64 bs # chunks64 n (drop 64 bs)"

fun be_words :: "w32 list \<Rightarrow> w32 list" where
  "be_words (b0 # b1 # b2 # b3 # bs) =
     or (or (or (push_bit 24 b0) (push_bit 16 b1)) (push_bit 8 b2)) b3 # be_words bs"
| "be_words bs = []"

primrec schedule :: "nat \<Rightarrow> w32 list \<Rightarrow> w32 list" where
  "schedule 0 w = w"
| "schedule (Suc n) w =
     (let t = length w
      in schedule n (w @ [ssig1 (w ! (t - 2)) + w ! (t - 7) + ssig0 (w ! (t - 15)) + w ! (t - 16)]))"

fun sha_round :: "sha_state \<Rightarrow> w32 \<times> w32 \<Rightarrow> sha_state" where
  "sha_round (a, b, c, d, e, f, g, h) (k, w) =
     (let t1 = h + bsig1 e + Ch e f g + k + w;
          t2 = bsig0 a + Maj a b c
      in (t1 + t2, a, b, c, d + t1, e, f, g))"

fun sha_add :: "sha_state \<Rightarrow> sha_state \<Rightarrow> sha_state" where
  "sha_add (a, b, c, d, e, f, g, h) (a', b', c', d', e', f', g', h') =
     (a + a', b + b', c + c', d + d', e + e', f + f', g + g', h + h')"

definition sha_chunk :: "sha_state \<Rightarrow> w32 list \<Rightarrow> sha_state" where
  "sha_chunk st bs = sha_add st (foldl sha_round st (zip sha256_K (schedule 48 (be_words bs))))"

definition sha256 :: "w32 list \<Rightarrow> sha_state" where
  "sha256 ms = (let p = sha256_pad ms in foldl sha_chunk sha256_init (chunks64 (length p div 64) p))"

definition hex_digit :: "w32 \<Rightarrow> char" where
  "hex_digit n = ''0123456789abcdef'' ! unat (and n 15)"

definition hex32 :: "w32 \<Rightarrow> string" where
  "hex32 w = map (\<lambda>i. hex_digit (drop_bit (4 * i) w)) [7, 6, 5, 4, 3, 2, 1, 0]"

fun hex_of_state :: "sha_state \<Rightarrow> string" where
  "hex_of_state (a, b, c, d, e, f, g, h) =
     hex32 a @ hex32 b @ hex32 c @ hex32 d @ hex32 e @ hex32 f @ hex32 g @ hex32 h"

definition sha256_hex :: "string \<Rightarrow> string" where
  "sha256_hex s = hex_of_state (sha256 (map of_char s))"


section \<open>Data model\<close>

text \<open>
  The request types of the service (\<^verbatim>\<open>Block\<close>, \<^verbatim>\<open>Transaction\<close>, \<^verbatim>\<open>Input\<close>,
  \<^verbatim>\<open>Output\<close>) as the validator builds them and the service reads them. A JavaScript
  \<^verbatim>\<open>number\<close> that came out of a JSON body is a finite number; it is a \<open>real\<close> here, so
  that a height such as 1.5 is a value of the type. Sums of values are exact in this
  model: the store keeps values in a NUMERIC column and adds them exactly, the service
  adds doubles, and the difference between the two is not represented.
\<close>

record Output =
  out_address :: string
  out_value :: real

record Input =
  txId :: string
  index :: real

record Transaction =
  trans_id :: string
  inputs :: "Input list"
  outputs :: "Output list"

record Block =
  block_id :: string
  height :: real
  transactions :: "Transaction list"

text \<open>
  A row of the \<^verbatim>\<open>outputs\<close> table (migrations.ts): the columns the code reads and writes.
  \<^verbatim>\<open>output_index\<close> and \<^verbatim>\<open>spent_by_index\<close> are loop counters of \<^verbatim>\<open>processTransaction\<close>.
\<close>

record OutputRecord =
  tx_id :: string
  output_index :: nat
  address :: string
  "value" :: real
  spent :: bool
  spent_by_tx :: "string option"
  spent_by_index :: "nat option"

text \<open>
  The store: table \<^verbatim>\<open>blocks\<close> with rows (id, height), table \<^verbatim>\<open>transactions\<close> with rows
  (id, block_id), and table \<^verbatim>\<open>outputs\<close>. Rows are kept in insertion order.
\<close>

record Ledger =
  blocks_tbl :: "(string \<times> int) list"
  transactions_tbl :: "(string \<times> string) list"
  outputs_tbl :: "OutputRecord list"

definition empty_ledger :: Ledger where
  "empty_ledger = \<lparr>blocks_tbl = [], transactions_tbl = [], outputs_tbl = []\<rparr>"

text \<open>
  Errors (errors.ts and the throw sites). Each constructor is one throw site and carries
  the values its message reports:
  \<^item> \<open>INVALID_HEIGHT expected got\<close>, \<open>INVALID_BLOCK_ID expected got\<close>,
    \<open>INVALID_INPUT txId index\<close>, \<open>VALUE_MISMATCH inputs outputs\<close>,
    \<open>INVALID_HEIGHT_PARAMETER\<close>, \<open>FUTURE_HEIGHT current target\<close>,
    \<open>EXCESSIVE_ROLLBACK max current target\<close>: \<^verbatim>\<open>ValidationError\<close> with that code;
  \<^item> \<open>DOUBLE_SPEND txId index\<close>: \<^verbatim>\<open>ConflictError\<close>;
  \<^item> \<open>SchemaError message\<close>: \<^verbatim>\<open>ValidationError\<close> of the block validator, without a code;
  \<^item> \<open>OutputNotFoundOrSpent txId index\<close>: the plain \<^verbatim>\<open>Error\<close> of \<^verbatim>\<open>markOutputAsSpent\<close>;
  \<^item> \<open>StoreError\<close>: an error raised by the store itself (a violated constraint).
\<close>

datatype app_error =
    INVALID_HEIGHT int real
  | INVALID_BLOCK_ID string string
  | INVALID_INPUT string real
  | DOUBLE_SPEND string real
  | VALUE_MISMATCH real real
  | INVALID_HEIGHT_PARAMETER
  | FUTURE_HEIGHT int int
  | EXCESSIVE_ROLLBACK int int int
  | SchemaError string
  | OutputNotFoundOrSpent string real
  | StoreError

datatype error_class = ValidationError | ConflictError | PlainError

fun class_of :: "app_error \<Rightarrow> error_class" where
  "class_of (DOUBLE_SPEND t i) = ConflictError"
| "class_of (OutputNotFoundOrSpent t i) = PlainError"
| "class_of StoreError = PlainError"
| "class_of e = ValidationError"

text \<open>
  \<^verbatim>\<open>statusCode\<close> of errors.ts; \<^verbatim>\<open>handleError\<close> of routes/blockchain.ts answers 500
  "Internal server error" for anything that is not an \<^verbatim>\<open>AppError\<close>.
\<close>

fun statusCode :: "app_error \<Rightarrow> nat" where
  "statusCode e = (case class_of e of ValidationError \<Rightarrow> 400 | ConflictError \<Rightarrow> 409 | PlainError \<Rightarrow> 500)"


text \<open>
  The result of a statement run against the store: the error it raised, if any, and the
  state of the store it leaves (inside a transaction: the uncommitted state).
\<close>

type_synonym outcome = "app_error option \<times> Ledger"

definition and_then :: "outcome \<Rightarrow> (Ledger \<Rightarrow> outcome) \<Rightarrow> outcome" where
  "and_then r f = (case r of (None, L) \<Rightarrow> f L | (Some e, L) \<Rightarrow> (Some e, L))"

section \<open>Repositories\<close>

subsection \<open>BlockRepository\<close>

text \<open>\<^verbatim>\<open>SELECT COALESCE(MAX(height), 0) FROM blocks\<close>\<close>

definition getCurrentHeight :: "Ledger \<Rightarrow> int" where
  "getCurrentHeight L =
     (if blocks_tbl L = [] then 0 else Max (snd ` set (blocks_tbl L)))"

text \<open>
  \<^verbatim>\<open>INSERT INTO blocks (id, height)\<close>: \<^verbatim>\<open>id\<close> is the primary key, \<^verbatim>\<open>height\<close> is an
  INTEGER column with a UNIQUE constraint.
\<close>

definition createBlock :: "Ledger \<Rightarrow> Block \<Rightarrow> outcome" where
  "createBlock L b =
     (if block_id b \<in> fst ` set (blocks_tbl L) then (Some StoreError, L)
      else if of_int \<lfloor>height b\<rfloor> \<noteq> height b then (Some StoreError, L)
      else if \<lfloor>height b\<rfloor> \<in> snd ` set (blocks_tbl L) then (Some StoreError, L)
      else (None, L\<lparr>blocks_tbl := blocks_tbl L @ [(block_id b, \<lfloor>height b\<rfloor>)]\<rparr>))"

text \<open>\<^verbatim>\<open>SELECT id FROM blocks WHERE height > $1 ORDER BY height DESC\<close>\<close>

definition getBlocksAboveHeight :: "Ledger \<Rightarrow> int \<Rightarrow> string list" where
  "getBlocksAboveHeight L h = map fst (rev (sort_key snd (filter (\<lambda>r. snd r > h) (blocks_tbl L))))"

text \<open>
  \<^verbatim>\<open>DELETE FROM blocks WHERE height > $1\<close>. \<^verbatim>\<open>transactions.block_id\<close> and
  \<^verbatim>\<open>outputs.tx_id\<close> are foreign keys declared ON DELETE CASCADE: the transactions of
  a deleted block and the outputs of a deleted transaction go with it.
\<close>

definition deleteBlocksAboveHeight :: "Ledger \<Rightarrow> int \<Rightarrow> Ledger" where
  "deleteBlocksAboveHeight L h =
     (let gone_blocks = map fst (filter (\<lambda>r. snd r > h) (blocks_tbl L));
          gone_txs = map fst (filter (\<lambda>r. snd r \<in> set gone_blocks) (transactions_tbl L))
      in \<lparr>blocks_tbl = filter (\<lambda>r. \<not> snd r > h) (blocks_tbl L),
          transactions_tbl = filter (\<lambda>r. snd r \<notin> set gone_blocks) (transactions_tbl L),
          outputs_tbl = filter (\<lambda>r. tx_id r \<notin> set gone_txs) (outputs_tbl L)\<rparr>)"

subsection \<open>TransactionRepository\<close>

text \<open>
  \<^verbatim>\<open>INSERT INTO transactions (id, block_id)\<close>: \<^verbatim>\<open>id\<close> is the primary key, \<^verbatim>\<open>block_id\<close>
  references \<^verbatim>\<open>blocks(id)\<close>.
\<close>

definition createTransaction :: "Ledger \<Rightarrow> Transaction \<Rightarrow> string \<Rightarrow> outcome" where
  "createTransaction L tx blockId =
     (if trans_id tx \<in> fst ` set (transactions_tbl L) then (Some StoreError, L)
      else if blockId \<notin> fst ` set (blocks_tbl L) then (Some StoreError, L)
      else (None, L\<lparr>transactions_tbl := transactions_tbl L @ [(trans_id tx, blockId)]\<rparr>))"

text \<open>\<^verbatim>\<open>SELECT id FROM transactions WHERE block_id = $1\<close>\<close>

definition getTransactionsByBlockId :: "Ledger \<Rightarrow> string \<Rightarrow> string list" where
  "getTransactionsByBlockId L blockId =
     map fst (filter (\<lambda>r. snd r = blockId) (transactions_tbl L))"

subsection \<open>OutputRepository\<close>

text \<open>
  \<^verbatim>\<open>INSERT INTO outputs (tx_id, output_index, address, value, spent) VALUES (.., FALSE)\<close>:
  \<^verbatim>\<open>tx_id\<close> references \<^verbatim>\<open>transactions(id)\<close>, (\<^verbatim>\<open>tx_id\<close>, \<^verbatim>\<open>output_index\<close>) is UNIQUE,
  the spender columns are left NULL.
\<close>

definition createOutput :: "Ledger \<Rightarrow> string \<Rightarrow> nat \<Rightarrow> Output \<Rightarrow> outcome" where
  "createOutput L txid i out =
     (if txid \<notin> fst ` set (transactions_tbl L) then (Some StoreError, L)
      else if (txid, i) \<in> (\<lambda>r. (tx_id r, output_index r)) ` set (outputs_tbl L)
        then (Some StoreError, L)
      else (None, L\<lparr>outputs_tbl := outputs_tbl L @
              [\<lparr>tx_id = txid, output_index = i, address = out_address out,
                value = out_value out, spent = False, spent_by_tx = None,
                spent_by_index = None\<rparr>]\<rparr>))"

text \<open>
  \<^verbatim>\<open>SELECT .. FROM outputs WHERE tx_id = $1 AND output_index = $2\<close>, first row or null.
\<close>

definition getOutput :: "Ledger \<Rightarrow> string \<Rightarrow> real \<Rightarrow> OutputRecord option" where
  "getOutput L txid i =
     find (\<lambda>r. tx_id r = txid \<and> real (output_index r) = i) (outputs_tbl L)"

text \<open>
  \<^verbatim>\<open>UPDATE outputs SET spent = TRUE, spent_by_tx = $1, spent_by_index = $2
  WHERE tx_id = $3 AND output_index = $4 AND spent = FALSE\<close>; a row count of 0 throws.
\<close>

definition spendable :: "string \<Rightarrow> real \<Rightarrow> OutputRecord \<Rightarrow> bool" where
  "spendable txid i r \<longleftrightarrow> tx_id r = txid \<and> real (output_index r) = i \<and> \<not> spent r"

definition markOutputAsSpent :: "Ledger \<Rightarrow> string \<Rightarrow> real \<Rightarrow> string \<Rightarrow> nat \<Rightarrow> outcome" where
  "markOutputAsSpent L txid i spentByTx spentByIndex =
     (let rowCount = length (filter (spendable txid i) (outputs_tbl L));
          L' = L\<lparr>outputs_tbl :=
                   map (\<lambda>r. if spendable txid i r
                             then r\<lparr>spent := True, spent_by_tx := Some spentByTx,
                                    spent_by_index := Some spentByIndex\<rparr>
                             else r) (outputs_tbl L)\<rparr>
      in if rowCount = 0 then (Some (OutputNotFoundOrSpent txid i), L') else (None, L'))"

text \<open>
  \<^verbatim>\<open>UPDATE outputs SET spent = FALSE, spent_by_tx = NULL, spent_by_index = NULL
  WHERE spent_by_tx = $1\<close>
\<close>

definition unspendOutputsByTransaction :: "Ledger \<Rightarrow> string \<Rightarrow> Ledger" where
  "unspendOutputsByTransaction L txid =
     L\<lparr>outputs_tbl :=
         map (\<lambda>r. if spent_by_tx r = Some txid
                   then r\<lparr>spent := False, spent_by_tx := None, spent_by_index := None\<rparr>
                   else r) (outputs_tbl L)\<rparr>"

text \<open>
  \<^verbatim>\<open>SELECT COALESCE(SUM(value), 0) FROM outputs WHERE address = $1 AND spent = FALSE\<close>
\<close>

definition getBalanceForAddress :: "Ledger \<Rightarrow> string \<Rightarrow> real" where
  "getBalanceForAddress L a =
     sum_list (map value (filter (\<lambda>r. address r = a \<and> \<not> spent r) (outputs_tbl L)))"


section \<open>BlockchainService\<close>

subsection \<open>Block identity\<close>

text \<open>
  \<^verbatim>\<open>height.toString()\<close>: for an integer below \<open>10\<^sup>2\<^sup>1\<close> in absolute value the decimal
  digits, with a minus sign when negative.
\<close>

definition digit_char :: "nat \<Rightarrow> char" where
  "digit_char d = ''0123456789'' ! (d mod 10)"

function dec_digits :: "nat \<Rightarrow> string" where
  "dec_digits n = (if n < 10 then [digit_char n] else dec_digits (n div 10) @ [digit_char n])"
  by pat_completeness auto
termination
  by (relation "measure id") auto

declare dec_digits.simps [simp del]

definition toString :: "int \<Rightarrow> string" where
  "toString n = (if n < 0 then CHR ''-'' # dec_digits (nat (- n)) else dec_digits (nat n))"

text \<open>
  \<^verbatim>\<open>calculateBlockHash(height, transactionIds)\<close>:
  \<^verbatim>\<open>height.toString() + transactionIds.join('')\<close>, hashed. The only call is in
  \<^verbatim>\<open>validateBlock\<close> after the height check, where the height is the integer
  \<^verbatim>\<open>currentHeight + 1\<close>; the height is read as that integer.
\<close>

definition calculateBlockHash :: "real \<Rightarrow> string list \<Rightarrow> string" where
  "calculateBlockHash h transactionIds = sha256_hex (toString \<lfloor>h\<rfloor> @ concat transactionIds)"

subsection \<open>Validation\<close>

text \<open>
  The loops of \<^verbatim>\<open>validateTransactionBalances\<close>: the inner loop over the inputs of a
  transaction looks each referenced output up and adds its value to
  \<^verbatim>\<open>totalInputValue\<close>; the loop over its outputs adds to \<^verbatim>\<open>totalOutputValue\<close>; the
  outer loop runs over the transactions of the block.
\<close>

fun sumInputs :: "Ledger \<Rightarrow> Input list \<Rightarrow> real \<Rightarrow> app_error + real" where
  "sumInputs L [] totalInputValue = Inr totalInputValue"
| "sumInputs L (inp # rest) totalInputValue =
     (case getOutput L (txId inp) (index inp) of
        None \<Rightarrow> Inl (INVALID_INPUT (txId inp) (index inp))
      | Some out \<Rightarrow>
          if spent out then Inl (DOUBLE_SPEND (txId inp) (index inp))
          else sumInputs L rest (totalInputValue + value out))"

fun sumOutputs :: "Output list \<Rightarrow> real \<Rightarrow> real" where
  "sumOutputs [] totalOutputValue = totalOutputValue"
| "sumOutputs (out # rest) totalOutputValue = sumOutputs rest (totalOutputValue + out_value out)"

fun sumTransactions :: "Ledger \<Rightarrow> Transaction list \<Rightarrow> real \<Rightarrow> real \<Rightarrow> app_error + real \<times> real" where
  "sumTransactions L [] totalInputValue totalOutputValue = Inr (totalInputValue, totalOutputValue)"
| "sumTransactions L (tx # rest) totalInputValue totalOutputValue =
     (case sumInputs L (inputs tx) totalInputValue of
        Inl e \<Rightarrow> Inl e
      | Inr totalInputValue' \<Rightarrow>
          sumTransactions L rest totalInputValue' (sumOutputs (outputs tx) totalOutputValue))"

definition validateTransactionBalances :: "Ledger \<Rightarrow> Block \<Rightarrow> app_error option" where
  "validateTransactionBalances L block =
     (case sumTransactions L (transactions block) 0 0 of
        Inl e \<Rightarrow> Some e
      | Inr (totalInputValue, totalOutputValue) \<Rightarrow>
          if height block > 1 \<and> \<bar>totalInputValue - totalOutputValue\<bar> > 0.000001
          then Some (VALUE_MISMATCH totalInputValue totalOutputValue)
          else None)"

definition validateBlock :: "Ledger \<Rightarrow> Block \<Rightarrow> app_error option" where
  "validateBlock L block =
     (let currentHeight = getCurrentHeight L in
      if height block \<noteq> of_int (currentHeight + 1)
      then Some (INVALID_HEIGHT (currentHeight + 1) (height block))
      else
        let expectedHash = calculateBlockHash (height block) (map trans_id (transactions block)) in
        if block_id block \<noteq> expectedHash
        then Some (INVALID_BLOCK_ID expectedHash (block_id block))
        else validateTransactionBalances L block)"

subsection \<open>Applying a block\<close>

text \<open>The two loops of \<^verbatim>\<open>processTransaction\<close>, with their counter \<^verbatim>\<open>i\<close>.\<close>

fun spendInputs :: "Ledger \<Rightarrow> string \<Rightarrow> nat \<Rightarrow> Input list \<Rightarrow> outcome" where
  "spendInputs L txid i [] = (None, L)"
| "spendInputs L txid i (inp # rest) =
     and_then (markOutputAsSpent L (txId inp) (index inp) txid i)
       (\<lambda>L'. spendInputs L' txid (Suc i) rest)"

fun createOutputs :: "Ledger \<Rightarrow> string \<Rightarrow> nat \<Rightarrow> Output list \<Rightarrow> outcome" where
  "createOutputs L txid i [] = (None, L)"
| "createOutputs L txid i (out # rest) =
     and_then (createOutput L txid i out) (\<lambda>L'. createOutputs L' txid (Suc i) rest)"

definition processTransaction :: "Ledger \<Rightarrow> Transaction \<Rightarrow> string \<Rightarrow> outcome" where
  "processTransaction L tx blockId =
     and_then (createTransaction L tx blockId) (\<lambda>L1.
     and_then (spendInputs L1 (trans_id tx) 0 (inputs tx)) (\<lambda>L2.
     createOutputs L2 (trans_id tx) 0 (outputs tx)))"

fun processTransactions :: "Ledger \<Rightarrow> Transaction list \<Rightarrow> string \<Rightarrow> outcome" where
  "processTransactions L [] blockId = (None, L)"
| "processTransactions L (tx # rest) blockId =
     and_then (processTransaction L tx blockId) (\<lambda>L'. processTransactions L' rest blockId)"

text \<open>
  The statements of \<^verbatim>\<open>processBlock\<close> between BEGIN and COMMIT, run on the state the
  transaction started from. On an error the outcome holds the state the statements had
  reached.
\<close>

definition applyBlock :: "Ledger \<Rightarrow> Block \<Rightarrow> outcome" where
  "applyBlock L block =
     and_then (createBlock L block) (\<lambda>L'.
       processTransactions L' (transactions block) (block_id block))"

text \<open>
  A transaction of the store: COMMIT publishes the state the statements reached, the
  ROLLBACK of the \<^verbatim>\<open>catch\<close> block restores the state at BEGIN and the error is rethrown.
\<close>

definition in_transaction :: "Ledger \<Rightarrow> (Ledger \<Rightarrow> outcome) \<Rightarrow> outcome" where
  "in_transaction L body =
     (case body L of (None, L') \<Rightarrow> (None, L') | (Some e, L') \<Rightarrow> (Some e, L))"

definition processBlock :: "Ledger \<Rightarrow> Block \<Rightarrow> outcome" where
  "processBlock L block =
     (case validateBlock L block of
        Some e \<Rightarrow> (Some e, L)
      | None \<Rightarrow> in_transaction L (\<lambda>L0. applyBlock L0 block))"

subsection \<open>Queries\<close>

definition getBalance :: "Ledger \<Rightarrow> string \<Rightarrow> real" where
  "getBalance L a = getBalanceForAddress L a"

subsection \<open>Rollback\<close>

text \<open>
  \<^verbatim>\<open>config.blockchain.maxRollbackBlocks\<close> is
  \<^verbatim>\<open>parseInt(process.env.MAX_ROLLBACK_BLOCKS || '2000')\<close>: the value of the environment
  variable when one is set, 2000 otherwise.
\<close>

definition maxRollbackBlocks :: "int option \<Rightarrow> int" where
  "maxRollbackBlocks env = (case env of None \<Rightarrow> 2000 | Some n \<Rightarrow> n)"

text \<open>The two nested loops of \<^verbatim>\<open>rollback\<close>.\<close>

fun unspendTransactions :: "Ledger \<Rightarrow> string list \<Rightarrow> Ledger" where
  "unspendTransactions L [] = L"
| "unspendTransactions L (txid # rest) = unspendTransactions (unspendOutputsByTransaction L txid) rest"

fun unspendBlocks :: "Ledger \<Rightarrow> string list \<Rightarrow> Ledger" where
  "unspendBlocks L [] = L"
| "unspendBlocks L (blockId # rest) =
     unspendBlocks (unspendTransactions L (getTransactionsByBlockId L blockId)) rest"

definition revertBlocks :: "int \<Rightarrow> Ledger \<Rightarrow> outcome" where
  "revertBlocks targetHeight L =
     (let blocksToDelete = getBlocksAboveHeight L targetHeight;
          L' = unspendBlocks L blocksToDelete
      in (None, deleteBlocksAboveHeight L' targetHeight))"

definition rollback :: "int option \<Rightarrow> Ledger \<Rightarrow> int \<Rightarrow> outcome" where
  "rollback env L targetHeight =
     (let currentHeight = getCurrentHeight L in
      if targetHeight < 0 then (Some INVALID_HEIGHT_PARAMETER, L)
      else if targetHeight > currentHeight
        then (Some (FUTURE_HEIGHT currentHeight targetHeight), L)
      else if currentHeight - targetHeight > maxRollbackBlocks env
        then (Some (EXCESSIVE_ROLLBACK (maxRollbackBlocks env) currentHeight targetHeight), L)
      else in_transaction L (revertBlocks targetHeight))"


section \<open>BlockValidator\<close>

text \<open>
  The validator receives the parsed JSON body (\<^verbatim>\<open>data: any\<close>). A JavaScript value:
  numbers are the finite numbers a JSON text denotes, an object is its list of
  properties.
\<close>

datatype jsval =
    JUndefined
  | JNull
  | JBool bool
  | JNum real
  | JStr string
  | JArr "jsval list"
  | JObj "(string \<times> jsval) list"

text \<open>\<^verbatim>\<open>!data || typeof data !== 'object'\<close> is false: arrays and objects.\<close>

fun is_object :: "jsval \<Rightarrow> bool" where
  "is_object (JArr xs) = True"
| "is_object (JObj kvs) = True"
| "is_object v = False"

text \<open>
  \<^verbatim>\<open>data.name\<close> for the property names the validator reads; none of them is a property
  of an array.
\<close>

fun get_prop :: "jsval \<Rightarrow> string \<Rightarrow> jsval" where
  "get_prop (JObj kvs) name = (case map_of kvs name of Some v \<Rightarrow> v | None \<Rightarrow> JUndefined)"
| "get_prop v name = JUndefined"

text \<open>\<^verbatim>\<open>typeof v !== 'string' || !v\<close> is false: a non-empty string.\<close>

fun nonempty_string :: "jsval \<Rightarrow> bool" where
  "nonempty_string (JStr s) = (s \<noteq> [])"
| "nonempty_string v = False"

text \<open>\<^verbatim>\<open>typeof v !== 'number' || v < bound\<close> is false: a number not below the bound.\<close>

fun number_at_least :: "real \<Rightarrow> jsval \<Rightarrow> bool" where
  "number_at_least bound (JNum x) = (\<not> x < bound)"
| "number_at_least bound v = False"

fun isArray :: "jsval \<Rightarrow> bool" where
  "isArray (JArr xs) = True"
| "isArray v = False"

fun str_of :: "jsval \<Rightarrow> string" where
  "str_of (JStr s) = s"
| "str_of v = []"

fun num_of :: "jsval \<Rightarrow> real" where
  "num_of (JNum x) = x"
| "num_of v = 0"

fun elems_of :: "jsval \<Rightarrow> jsval list" where
  "elems_of (JArr xs) = xs"
| "elems_of v = []"

text \<open>\<^verbatim>\<open>xs.map(f)\<close> with an \<open>f\<close> that may throw: the first throw ends the loop.\<close>

fun map_throwing :: "('a \<Rightarrow> app_error + 'b) \<Rightarrow> 'a list \<Rightarrow> app_error + 'b list" where
  "map_throwing f [] = Inr []"
| "map_throwing f (x # xs) =
     (case f x of
        Inl e \<Rightarrow> Inl e
      | Inr y \<Rightarrow> (case map_throwing f xs of Inl e \<Rightarrow> Inl e | Inr ys \<Rightarrow> Inr (y # ys)))"

definition validateOutputSchema :: "jsval \<Rightarrow> app_error + Output" where
  "validateOutputSchema data =
     (if \<not> is_object data then Inl (SchemaError ''Invalid output data'')
      else if \<not> nonempty_string (get_prop data ''address'')
        then Inl (SchemaError ''Output address must be a non-empty string'')
      else if \<not> number_at_least 0 (get_prop data ''value'')
        then Inl (SchemaError ''Output value must be a non-negative number'')
      else Inr \<lparr>out_address = str_of (get_prop data ''address''),
                out_value = num_of (get_prop data ''value'')\<rparr>)"

definition validateInputSchema :: "jsval \<Rightarrow> app_error + Input" where
  "validateInputSchema data =
     (if \<not> is_object data then Inl (SchemaError ''Invalid input data'')
      else if \<not> nonempty_string (get_prop data ''txId'')
        then Inl (SchemaError ''Input txId must be a non-empty string'')
      else if \<not> number_at_least 0 (get_prop data ''index'')
        then Inl (SchemaError ''Input index must be a non-negative number'')
      else Inr \<lparr>txId = str_of (get_prop data ''txId''), index = num_of (get_prop data ''index'')\<rparr>)"

definition validateTransactionSchema :: "jsval \<Rightarrow> app_error + Transaction" where
  "validateTransactionSchema data =
     (if \<not> is_object data then Inl (SchemaError ''Invalid transaction data'')
      else if \<not> nonempty_string (get_prop data ''id'')
        then Inl (SchemaError ''Transaction ID must be a non-empty string'')
      else if \<not> isArray (get_prop data ''inputs'')
        then Inl (SchemaError ''Transaction inputs must be an array'')
      else if \<not> isArray (get_prop data ''outputs'')
        then Inl (SchemaError ''Transaction outputs must be an array'')
      else
        (case map_throwing validateInputSchema (elems_of (get_prop data ''inputs'')) of
           Inl e \<Rightarrow> Inl e
         | Inr ins \<Rightarrow>
             (case map_throwing validateOutputSchema (elems_of (get_prop data ''outputs'')) of
                Inl e \<Rightarrow> Inl e
              | Inr outs \<Rightarrow>
                  Inr \<lparr>trans_id = str_of (get_prop data ''id''), inputs = ins, outputs = outs\<rparr>)))"

definition validateBlockSchema :: "jsval \<Rightarrow> app_error + Block" where
  "validateBlockSchema data =
     (if \<not> is_object data then Inl (SchemaError ''Invalid block data'')
      else if \<not> nonempty_string (get_prop data ''id'')
        then Inl (SchemaError ''Block ID must be a non-empty string'')
      else if \<not> number_at_least 1 (get_prop data ''height'')
        then Inl (SchemaError ''Block height must be a positive number'')
      else if \<not> isArray (get_prop data ''transactions'')
        then Inl (SchemaError ''Block transactions must be an array'')
      else
        (case map_throwing validateTransactionSchema (elems_of (get_prop data ''transactions'')) of
           Inl e \<Rightarrow> Inl e
         | Inr txs \<Rightarrow>
             Inr \<lparr>block_id = str_of (get_prop data ''id''), height = num_of (get_prop data ''height''),
                  transactions = txs\<rparr>))"

section \<open>Request handlers\<close>

text \<open>
  The handler of \<^verbatim>\<open>POST /blocks\<close> (routes/blockchain.ts):
  \<^verbatim>\<open>validateBlockSchema(request.body)\<close>, then \<^verbatim>\<open>processBlock\<close>.
\<close>

definition submitBlock :: "Ledger \<Rightarrow> jsval \<Rightarrow> outcome" where
  "submitBlock L body =
     (case validateBlockSchema body of
        Inl e \<Rightarrow> (Some e, L)
      | Inr block \<Rightarrow> processBlock L block)"

text \<open>
  The states of the store the handlers can produce from the empty store: by a block
  submitted through \<^verbatim>\<open>POST /blocks\<close>, or by a rollback to any target height, under any
  configured maximum depth.
\<close>

inductive reachable :: "Ledger \<Rightarrow> bool" where
  start: "reachable empty_ledger"
| block: "reachable L \<Longrightarrow> submitBlock L body = (None, L') \<Longrightarrow> reachable L'"
| rolled_back: "reachable L \<Longrightarrow> rollback env L targetHeight = (None, L') \<Longrightarrow> reachable L'"

text \<open>Admitting a sequence of blocks, one after the other; \<open>None\<close> when one is refused.\<close>

fun admit_all :: "Ledger \<Rightarrow> Block list \<Rightarrow> Ledger option" where
  "admit_all L [] = Some L"
| "admit_all L (b # bs) =
     (case processBlock L b of
        (None, L') \<Rightarrow> admit_all L' bs
      | (Some e, L') \<Rightarrow> None)"

section \<open>Block admission as the four ordered checks\<close>

text \<open>
  The admission checks as the specification words them: the height check, the identity
  check, the validity of every input in block order, and the conservation of value over
  the whole block; the first check that fails gives the error.
\<close>

definition all_inputs :: "Block \<Rightarrow> Input list" where
  "all_inputs b = concat (map inputs (transactions b))"

definition all_outputs :: "Block \<Rightarrow> Output list" where
  "all_outputs b = concat (map outputs (transactions b))"

text \<open>An input is unusable when the output it references does not exist or is spent.\<close>

definition unusable :: "Ledger \<Rightarrow> Input \<Rightarrow> bool" where
  "unusable L i = (case getOutput L (txId i) (index i) of None \<Rightarrow> True | Some r \<Rightarrow> spent r)"

definition input_error :: "Ledger \<Rightarrow> Input \<Rightarrow> app_error" where
  "input_error L i =
     (case getOutput L (txId i) (index i) of
        None \<Rightarrow> INVALID_INPUT (txId i) (index i)
      | Some r \<Rightarrow> DOUBLE_SPEND (txId i) (index i))"

definition referenced_value :: "Ledger \<Rightarrow> Input \<Rightarrow> real" where
  "referenced_value L i = (case getOutput L (txId i) (index i) of None \<Rightarrow> 0 | Some r \<Rightarrow> value r)"

definition total_in :: "Ledger \<Rightarrow> Block \<Rightarrow> real" where
  "total_in L b = sum_list (map (referenced_value L) (all_inputs b))"

definition total_out :: "Block \<Rightarrow> real" where
  "total_out b = sum_list (map out_value (all_outputs b))"

text \<open>
  The expected identifier: the digest of the decimal height followed by the transaction
  identifiers in block order, nothing in between.
\<close>

definition expected_id :: "int \<Rightarrow> string list \<Rightarrow> string" where
  "expected_id h ids = sha256_hex (toString h @ concat ids)"

text \<open>Reading a decimal numeral back, to say what \<open>toString\<close> prints.\<close>

definition digit_value :: "char \<Rightarrow> nat" where
  "digit_value c = of_char c - 48"

definition read_digits :: "string \<Rightarrow> nat" where
  "read_digits ds = foldl (\<lambda>a c. 10 * a + digit_value c) 0 ds"

fun read_decimal :: "string \<Rightarrow> int" where
  "read_decimal [] = 0"
| "read_decimal (c # cs) = (if c = CHR ''-'' then - int (read_digits cs) else int (read_digits (c # cs)))"

definition admission_checks :: "Ledger \<Rightarrow> Block \<Rightarrow> app_error option" where
  "admission_checks L b =
     (let expected_height = getCurrentHeight L + 1;
          expected = expected_id expected_height (map trans_id (transactions b))
      in if height b \<noteq> of_int expected_height
           then Some (INVALID_HEIGHT expected_height (height b))
         else if block_id b \<noteq> expected
           then Some (INVALID_BLOCK_ID expected (block_id b))
         else case find (unusable L) (all_inputs b) of
                Some i \<Rightarrow> Some (input_error L i)
              | None \<Rightarrow>
                  if height b > 1 \<and> \<bar>total_in L b - total_out b\<bar> > 1 / 10 ^ 6
                  then Some (VALUE_MISMATCH (total_in L b) (total_out b))
                  else None)"

section \<open>Invariants of the store\<close>

text \<open>
  The blocks above a height, and the transactions they own: what a rollback to that
  height removes.
\<close>

definition blocks_above :: "Ledger \<Rightarrow> int \<Rightarrow> string set" where
  "blocks_above L h = set (map fst (filter (\<lambda>r. snd r > h) (blocks_tbl L)))"

definition txs_above :: "Ledger \<Rightarrow> int \<Rightarrow> string set" where
  "txs_above L h =
     set (map fst (filter (\<lambda>r. snd r \<in> blocks_above L h) (transactions_tbl L)))"

text \<open>An output row set back to unspent, and the rows spent by one of a set of transactions set back.\<close>

definition unspend :: "OutputRecord \<Rightarrow> OutputRecord" where
  "unspend r = r\<lparr>spent := False, spent_by_tx := None, spent_by_index := None\<rparr>"

definition unspend_in :: "string set \<Rightarrow> OutputRecord \<Rightarrow> OutputRecord" where
  "unspend_in T r = (if spent_by_tx r \<in> Some ` T then unspend r else r)"

text \<open>The row update of \<^verbatim>\<open>markOutputAsSpent\<close>.\<close>

definition mark :: "string \<Rightarrow> real \<Rightarrow> string \<Rightarrow> nat \<Rightarrow> OutputRecord \<Rightarrow> OutputRecord" where
  "mark t i s j r =
     (if spendable t i r
      then r\<lparr>spent := True, spent_by_tx := Some s, spent_by_index := Some j\<rparr> else r)"

text \<open>The key of an output row: the UNIQUE pair of the table.\<close>

definition key_of :: "OutputRecord \<Rightarrow> string \<times> nat" where
  "key_of r = (tx_id r, output_index r)"

text \<open>
  What the statements of the service keep true of the store:
  \<^item> the heights of the stored blocks are \<open>1, \<dots>, currentHeight\<close>;
  \<^item> every transaction belongs to a stored block and every output to a stored
    transaction (the foreign keys);
  \<^item> a spent output names a stored transaction as its spender, an unspent output names
    none;
  \<^item> no two outputs have the same key;
  \<^item> no output has a negative value.
\<close>

definition heights_contiguous :: "Ledger \<Rightarrow> bool" where
  "heights_contiguous L \<longleftrightarrow> snd ` set (blocks_tbl L) = {1..getCurrentHeight L}"

definition references_intact :: "Ledger \<Rightarrow> bool" where
  "references_intact L \<longleftrightarrow>
     snd ` set (transactions_tbl L) \<subseteq> fst ` set (blocks_tbl L) \<and>
     tx_id ` set (outputs_tbl L) \<subseteq> fst ` set (transactions_tbl L)"

definition spender_recorded :: "Ledger \<Rightarrow> OutputRecord \<Rightarrow> bool" where
  "spender_recorded L r \<longleftrightarrow>
     (if spent r then \<exists>t \<in> fst ` set (transactions_tbl L). spent_by_tx r = Some t
      else spent_by_tx r = None \<and> spent_by_index r = None)"

definition spenders_recorded :: "Ledger \<Rightarrow> bool" where
  "spenders_recorded L \<longleftrightarrow> (\<forall>r \<in> set (outputs_tbl L). spender_recorded L r)"

definition keys_distinct :: "Ledger \<Rightarrow> bool" where
  "keys_distinct L \<longleftrightarrow> distinct (map key_of (outputs_tbl L))"

definition values_nonneg :: "Ledger \<Rightarrow> bool" where
  "values_nonneg L \<longleftrightarrow> (\<forall>r \<in> set (outputs_tbl L). 0 \<le> value r)"

definition rows_consistent :: "Ledger \<Rightarrow> bool" where
  "rows_consistent L \<longleftrightarrow> references_intact L \<and> spenders_recorded L \<and> keys_distinct L"

definition wf_ledger :: "Ledger \<Rightarrow> bool" where
  "wf_ledger L \<longleftrightarrow> heights_contiguous L \<and> rows_consistent L"

text \<open>
  How the rows of the outputs table change while a block with the transactions \<open>T\<close> is
  applied: a row stays, or goes from unspent to spent by one of \<open>T\<close>; and rows owned by
  \<open>T\<close> are added at the end.
\<close>

definition spend_step :: "string set \<Rightarrow> OutputRecord \<Rightarrow> OutputRecord \<Rightarrow> bool" where
  "spend_step T r r' \<longleftrightarrow>
     r' = r \<or>
     (\<not> spent r \<and>
      (\<exists>t \<in> T. \<exists>j. r' = r\<lparr>spent := True, spent_by_tx := Some t, spent_by_index := Some j\<rparr>))"

definition extends :: "string set \<Rightarrow> OutputRecord list \<Rightarrow> OutputRecord list \<Rightarrow> bool" where
  "extends T os os' \<longleftrightarrow>
     (\<exists>olds news. os' = olds @ news \<and> list_all2 (spend_step T) os olds \<and>
        (\<forall>r \<in> set news. tx_id r \<in> T))"

text \<open>
  The output an input references, and the state of a reference once it has been spent
  inside a transaction: a row for it exists and every row for it is spent.
\<close>

definition input_key :: "Input \<Rightarrow> string \<times> real" where
  "input_key i = (txId i, index i)"

definition refers :: "string \<times> real \<Rightarrow> OutputRecord \<Rightarrow> bool" where
  "refers k r \<longleftrightarrow> tx_id r = fst k \<and> real (output_index r) = snd k"

definition all_spent :: "string \<times> real \<Rightarrow> Ledger \<Rightarrow> bool" where
  "all_spent k L \<longleftrightarrow>
     (\<exists>r \<in> set (outputs_tbl L). refers k r) \<and> (\<forall>r \<in> set (outputs_tbl L). refers k r \<longrightarrow> spent r)"

section \<open>A run of the service\<close>

text \<open>
  The scenario of the integration tests (spec/index.spec.ts): a genesis block that mints
  100 for \<^verbatim>\<open>addr1\<close>, and a second block that spends that output into 40 for \<^verbatim>\<open>addr2\<close> and
  60 for \<^verbatim>\<open>addr3\<close>; with the states of the store after each.
\<close>

definition genesis_block :: Block where
  "genesis_block =
     \<lparr>block_id = ''d1582b9e2cac15e170c39ef2e85855ffd7e6a820550a8ca16a2f016d366503dc'',
      height = 1,
      transactions =
        [\<lparr>trans_id = ''tx1'', inputs = [],
          outputs = [\<lparr>out_address = ''addr1'', out_value = 100\<rparr>]\<rparr>]\<rparr>"

definition ledger1 :: Ledger where
  "ledger1 =
     \<lparr>blocks_tbl = [(''d1582b9e2cac15e170c39ef2e85855ffd7e6a820550a8ca16a2f016d366503dc'', 1)],
      transactions_tbl =
        [(''tx1'', ''d1582b9e2cac15e170c39ef2e85855ffd7e6a820550a8ca16a2f016d366503dc'')],
      outputs_tbl =
        [\<lparr>tx_id = ''tx1'', output_index = 0, address = ''addr1'', value = 100,
          spent = False, spent_by_tx = None, spent_by_index = None\<rparr>]\<rparr>"

definition block2 :: Block where
  "block2 =
     \<lparr>block_id = ''c4701d0bfd7179e1db6e33e947e6c718bbc4a1ae927300cd1e3bda91a930cba5'',
      height = 2,
      transactions =
        [\<lparr>trans_id = ''tx2'', inputs = [\<lparr>txId = ''tx1'', index = 0\<rparr>],
          outputs = [\<lparr>out_address = ''addr2'', out_value = 40\<rparr>,
                     \<lparr>out_address = ''addr3'', out_value = 60\<rparr>]\<rparr>]\<rparr>"

definition ledger2 :: Ledger where
  "ledger2 =
     \<lparr>blocks_tbl =
        [(''d1582b9e2cac15e170c39ef2e85855ffd7e6a820550a8ca16a2f016d366503dc'', 1),
         (''c4701d0bfd7179e1db6e33e947e6c718bbc4a1ae927300cd1e3bda91a930cba5'', 2)],
      transactions_tbl =
        [(''tx1'', ''d1582b9e2cac15e170c39ef2e85855ffd7e6a820550a8ca16a2f016d366503dc''),
         (''tx2'', ''c4701d0bfd7179e1db6e33e947e6c718bbc4a1ae927300cd1e3bda91a930cba5'')],
      outputs_tbl =
        [\<lparr>tx_id = ''tx1'', output_index = 0, address = ''addr1'', value = 100,
          spent = True, spent_by_tx = Some ''tx2'', spent_by_index = Some 0\<rparr>,
         \<lparr>tx_id = ''tx2'', output_index = 0, address = ''addr2'', value = 40,
          spent = False, spent_by_tx = None, spent_by_index = None\<rparr>,
         \<lparr>tx_id = ''tx2'', output_index = 1, address = ''addr3'', value = 60,
          spent = False, spent_by_tx = None, spent_by_index = None\<rparr>]\<rparr>"




text \<open>
  A block for height 2 whose transaction lists the input \<^verbatim>\<open>tx1:0\<close> twice and creates an
  output worth 200, and the state its statements have reached when the second
  \<^verbatim>\<open>markOutputAsSpent\<close> throws.
\<close>

definition block2_twice :: Block where
  "block2_twice =
     \<lparr>block_id = calculateBlockHash 2 [''tx3''],
      height = 2,
      transactions =
        [\<lparr>trans_id = ''tx3'',
          inputs = [\<lparr>txId = ''tx1'', index = 0\<rparr>, \<lparr>txId = ''tx1'', index = 0\<rparr>],
          outputs = [\<lparr>out_address = ''addr4'', out_value = 200\<rparr>]\<rparr>]\<rparr>"

definition ledger1_partial :: Ledger where
  "ledger1_partial =
     \<lparr>blocks_tbl =
        [(''d1582b9e2cac15e170c39ef2e85855ffd7e6a820550a8ca16a2f016d366503dc'', 1),
         (calculateBlockHash 2 [''tx3''], 2)],
      transactions_tbl =
        [(''tx1'', ''d1582b9e2cac15e170c39ef2e85855ffd7e6a820550a8ca16a2f016d366503dc''),
         (''tx3'', calculateBlockHash 2 [''tx3''])],
      outputs_tbl =
        [\<lparr>tx_id = ''tx1'', output_index = 0, address = ''addr1'', value = 100,
          spent = True, spent_by_tx = Some ''tx3'', spent_by_index = Some 0\<rparr>]\<rparr>"

text \<open>
  A request body whose height and input index are numbers that are not integers, and
  the block the validator makes of it.
\<close>

definition fractional_body :: jsval where
  "fractional_body =
     JObj [(''id'', JStr ''b''), (''height'', JNum (3 / 2)),
           (''transactions'',
            JArr [JObj [(''id'', JStr ''t''),
                        (''inputs'', JArr [JObj [(''txId'', JStr ''t0''), (''index'', JNum (1 / 2))]]),
                        (''outputs'', JArr [])]])]"

definition fractional_block :: Block where
  "fractional_block =
     \<lparr>block_id = ''b'', height = 3 / 2,
      transactions =
        [\<lparr>trans_id = ''t'', inputs = [\<lparr>txId = ''t0'', index = 1 / 2\<rparr>], outputs = []\<rparr>]\<rparr>"

text \<open>The request bodies of the genesis block and of the second block.\<close>

definition genesis_body :: jsval where
  "genesis_body =
     JObj [(''id'', JStr ''d1582b9e2cac15e170c39ef2e85855ffd7e6a820550a8ca16a2f016d366503dc''),
           (''height'', JNum 1),
           (''transactions'',
            JArr [JObj [(''id'', JStr ''tx1''), (''inputs'', JArr []),
                        (''outputs'',
                         JArr [JObj [(''address'', JStr ''addr1''), (''value'', JNum 100)]])]])]"

definition block2_body :: jsval where
  "block2_body =
     JObj [(''id'', JStr ''c4701d0bfd7179e1db6e33e947e6c718bbc4a1ae927300cd1e3bda91a930cba5''),
           (''height'', JNum 2),
           (''transactions'',
            JArr [JObj [(''id'', JStr ''tx2''),
                        (''inputs'', JArr [JObj [(''txId'', JStr ''tx1''), (''index'', JNum 0)]]),
                        (''outputs'',
                         JArr [JObj [(''address'', JStr ''addr2''), (''value'', JNum 40)],
                               JObj [(''address'', JStr ''addr3''), (''value'', JNum 60)]])]])]"

text \<open>
  The block with the repeated input again, now creating an output worth 100 only.
\<close>

definition block2_twice_short :: Block where
  "block2_twice_short =
     \<lparr>block_id = calculateBlockHash 2 [''tx3''],
      height = 2,
      transactions =
        [\<lparr>trans_id = ''tx3'',
          inputs = [\<lparr>txId = ''tx1'', index = 0\<rparr>, \<lparr>txId = ''tx1'', index = 0\<rparr>],
          outputs = [\<lparr>out_address = ''addr4'', out_value = 100\<rparr>]\<rparr>]\<rparr>"

section \<open>Properties\<close>

subsection \<open>Sequencing of statements\<close>

lemma and_then_None:
  "and_then r f = (None, L') \<longleftrightarrow> (\<exists>L1. r = (None, L1) \<and> f L1 = (None, L'))"
  by (cases r) (auto simp: and_then_def split: option.splits)

lemma and_then_Some:
  "and_then r f = (Some e, L') \<longleftrightarrow>
     r = (Some e, L') \<or> (\<exists>L1. r = (None, L1) \<and> f L1 = (Some e, L'))"
  by (cases r) (auto simp: and_then_def split: option.splits)

lemma markOutputAsSpent_tables:
  "markOutputAsSpent L t i s j = (r, L') \<Longrightarrow>
     blocks_tbl L' = blocks_tbl L \<and> transactions_tbl L' = transactions_tbl L"
  by (auto simp: markOutputAsSpent_def Let_def split: if_splits)

lemma createOutput_tables:
  "createOutput L t i out = (r, L') \<Longrightarrow>
     blocks_tbl L' = blocks_tbl L \<and> transactions_tbl L' = transactions_tbl L"
  by (auto simp: createOutput_def split: if_splits)

lemma spendInputs_tables:
  "spendInputs L t i ins = (r, L') \<Longrightarrow>
     blocks_tbl L' = blocks_tbl L \<and> transactions_tbl L' = transactions_tbl L"
proof (induction ins arbitrary: L i)
  case Nil
  then show ?case by simp
next
  case (Cons inp rest)
  obtain r1 L1 where m: "markOutputAsSpent L (txId inp) (index inp) t i = (r1, L1)"
    by (cases "markOutputAsSpent L (txId inp) (index inp) t i")
  show ?case
  proof (cases r1)
    case None
    with Cons.prems m have "spendInputs L1 t (Suc i) rest = (r, L')"
      by (simp add: and_then_def)
    from Cons.IH[OF this] markOutputAsSpent_tables[OF m] show ?thesis by simp
  next
    case (Some e)
    with Cons.prems m have "L' = L1" by (simp add: and_then_def)
    with markOutputAsSpent_tables[OF m] show ?thesis by simp
  qed
qed

lemma createOutputs_tables:
  "createOutputs L t i outs = (r, L') \<Longrightarrow>
     blocks_tbl L' = blocks_tbl L \<and> transactions_tbl L' = transactions_tbl L"
proof (induction outs arbitrary: L i)
  case Nil
  then show ?case by simp
next
  case (Cons out rest)
  obtain r1 L1 where m: "createOutput L t i out = (r1, L1)"
    by (cases "createOutput L t i out")
  show ?case
  proof (cases r1)
    case None
    with Cons.prems m have "createOutputs L1 t (Suc i) rest = (r, L')"
      by (simp add: and_then_def)
    from Cons.IH[OF this] createOutput_tables[OF m] show ?thesis by simp
  next
    case (Some e)
    with Cons.prems m have "L' = L1" by (simp add: and_then_def)
    with createOutput_tables[OF m] show ?thesis by simp
  qed
qed

lemma createTransaction_blocks:
  "createTransaction L tx bid = (r, L') \<Longrightarrow> blocks_tbl L' = blocks_tbl L"
  by (auto simp: createTransaction_def split: if_splits)

lemma processTransaction_blocks:
  "processTransaction L tx bid = (r, L') \<Longrightarrow> blocks_tbl L' = blocks_tbl L"
  unfolding processTransaction_def
  by (cases r)
     (auto simp: and_then_None and_then_Some
           dest!: createTransaction_blocks spendInputs_tables createOutputs_tables)

lemma processTransactions_blocks:
  "processTransactions L txs bid = (r, L') \<Longrightarrow> blocks_tbl L' = blocks_tbl L"
proof (induction txs arbitrary: L)
  case Nil
  then show ?case by simp
next
  case (Cons tx rest)
  obtain r1 L1 where m: "processTransaction L tx bid = (r1, L1)"
    by (cases "processTransaction L tx bid")
  show ?case
  proof (cases r1)
    case None
    with Cons.prems m have "processTransactions L1 rest bid = (r, L')"
      by (simp add: and_then_def)
    from Cons.IH[OF this] processTransaction_blocks[OF m] show ?thesis by simp
  next
    case (Some e)
    with Cons.prems m have "L' = L1" by (simp add: and_then_def)
    with processTransaction_blocks[OF m] show ?thesis by simp
  qed
qed

lemma applyBlock_blocks:
  assumes "applyBlock L b = (None, L')"
  shows "blocks_tbl L' = blocks_tbl L @ [(block_id b, \<lfloor>height b\<rfloor>)]"
proof -
  from assms obtain L1 where c: "createBlock L b = (None, L1)"
    and p: "processTransactions L1 (transactions b) (block_id b) = (None, L')"
    by (auto simp: applyBlock_def and_then_None)
  from c have "blocks_tbl L1 = blocks_tbl L @ [(block_id b, \<lfloor>height b\<rfloor>)]"
    by (auto simp: createBlock_def split: if_splits)
  with processTransactions_blocks[OF p] show ?thesis by simp
qed

lemma getCurrentHeight_append:
  assumes "blocks_tbl L' = blocks_tbl L @ [(i, getCurrentHeight L + 1)]"
  shows "getCurrentHeight L' = getCurrentHeight L + 1"
proof (cases "blocks_tbl L = []")
  case True
  with assms show ?thesis by (simp add: getCurrentHeight_def)
next
  case False
  let ?S = "snd ` set (blocks_tbl L)"
  have fin: "finite ?S" and ne: "?S \<noteq> {}" using False by auto
  have "Max (insert (Max ?S + 1) ?S) = max (Max ?S + 1) (Max ?S)"
    using fin ne by (rule Max_insert)
  then show ?thesis using assms False by (simp add: getCurrentHeight_def)
qed

lemma processBlock_None:
  "processBlock L b = (None, L') \<longleftrightarrow> validateBlock L b = None \<and> applyBlock L b = (None, L')"
  by (auto simp: processBlock_def in_transaction_def split: option.splits prod.splits)

lemma validateBlock_height:
  "validateBlock L b = None \<Longrightarrow> height b = of_int (getCurrentHeight L + 1)"
  by (auto simp: validateBlock_def Let_def split: if_splits)

lemma processBlock_height:
  assumes "processBlock L b = (None, L')"
  shows "height b = of_int (getCurrentHeight L + 1)"
    and "getCurrentHeight L' = getCurrentHeight L + 1"
proof -
  from assms have v: "validateBlock L b = None" and a: "applyBlock L b = (None, L')"
    by (simp_all add: processBlock_None)
  from validateBlock_height[OF v] show h: "height b = of_int (getCurrentHeight L + 1)" .
  from applyBlock_blocks[OF a] h
  have "blocks_tbl L' = blocks_tbl L @ [(block_id b, getCurrentHeight L + 1)]" by simp
  then show "getCurrentHeight L' = getCurrentHeight L + 1" by (rule getCurrentHeight_append)
qed

lemma admit_all_height:
  "admit_all L bs = Some L' \<Longrightarrow>
     getCurrentHeight L' = getCurrentHeight L + int (length bs) \<and>
     map height bs = map (\<lambda>k. of_int (getCurrentHeight L + 1 + int k)) [0..<length bs]"
proof (induction bs arbitrary: L)
  case Nil
  then show ?case by simp
next
  case (Cons b bs)
  from Cons.prems obtain L1 where p: "processBlock L b = (None, L1)"
    and r: "admit_all L1 bs = Some L'"
    by (auto split: prod.splits option.splits)
  note h = processBlock_height[OF p]
  from Cons.IH[OF r] h show ?case
    by (auto simp: map_upt_Suc simp del: upt_Suc)
qed


subsection \<open>Validation is the four ordered checks\<close>

lemma find_append':
  "find P (xs @ ys) = (case find P xs of Some x \<Rightarrow> Some x | None \<Rightarrow> find P ys)"
  by (induction xs) auto

lemma sumInputs_eq:
  "sumInputs L ins acc =
     (case find (unusable L) ins of
        Some i \<Rightarrow> Inl (input_error L i)
      | None \<Rightarrow> Inr (acc + sum_list (map (referenced_value L) ins)))"
  by (induction ins arbitrary: acc)
     (auto simp: unusable_def input_error_def referenced_value_def split: option.splits)

lemma sumOutputs_eq: "sumOutputs outs acc = acc + sum_list (map out_value outs)"
  by (induction outs arbitrary: acc) auto

lemma sumTransactions_eq:
  "sumTransactions L txs ti to =
     (case find (unusable L) (concat (map inputs txs)) of
        Some i \<Rightarrow> Inl (input_error L i)
      | None \<Rightarrow> Inr (ti + sum_list (map (referenced_value L) (concat (map inputs txs))),
                     to + sum_list (map out_value (concat (map outputs txs)))))"
  by (induction txs arbitrary: ti to)
     (auto simp: sumInputs_eq sumOutputs_eq find_append' split: option.splits)

lemma validateTransactionBalances_eq:
  "validateTransactionBalances L b =
     (case find (unusable L) (all_inputs b) of
        Some i \<Rightarrow> Some (input_error L i)
      | None \<Rightarrow>
          if height b > 1 \<and> \<bar>total_in L b - total_out b\<bar> > 1 / 10 ^ 6
          then Some (VALUE_MISMATCH (total_in L b) (total_out b))
          else None)"
  by (simp add: validateTransactionBalances_def sumTransactions_eq all_inputs_def
      all_outputs_def total_in_def total_out_def split: option.splits)

lemma validateBlock_admission_checks: "validateBlock L b = admission_checks L b"
  by (simp add: validateBlock_def admission_checks_def Let_def calculateBlockHash_def
      expected_id_def validateTransactionBalances_eq)

subsection \<open>Shape of the digest\<close>

lemma processBlock_refused:
  "validateBlock L b = Some e \<Longrightarrow> processBlock L b = (Some e, L)"
  by (simp add: processBlock_def)

lemma unat_and_15: "unat (w AND (15 :: 32 word)) < 16"
proof -
  have "w AND 15 \<le> 15" by (rule word_and_le1)
  then have "unat (w AND 15) \<le> unat (15 :: 32 word)" by (simp add: word_le_nat_alt)
  then show ?thesis by simp
qed

lemma hex_digit_lower: "hex_digit w \<in> set ''0123456789abcdef''"
  unfolding hex_digit_def using unat_and_15[of w]
  by (intro nth_mem) simp

lemma hex32_length: "length (hex32 w) = 8"
  by (simp add: hex32_def)

lemma hex32_lower: "set (hex32 w) \<subseteq> set ''0123456789abcdef''"
  using hex_digit_lower by (auto simp only: hex32_def set_map)

lemma hex_of_state_length: "length (hex_of_state st) = 64"
  by (cases st rule: hex_of_state.cases) (simp add: hex32_length)

lemma hex_of_state_lower: "set (hex_of_state st) \<subseteq> set ''0123456789abcdef''"
  using hex32_lower
  by (cases st rule: hex_of_state.cases) (simp only: hex_of_state.simps set_append Un_subset_iff)

lemma sha256_hex_length: "length (sha256_hex s) = 64"
  by (simp add: sha256_hex_def hex_of_state_length)

lemma sha256_hex_lower: "set (sha256_hex s) \<subseteq> set ''0123456789abcdef''"
  by (simp only: sha256_hex_def hex_of_state_lower)

subsection \<open>Decimal printing of the height\<close>

lemma digit_char_value: "digit_value (digit_char d) = d mod 10"
proof -
  have "\<forall>k < 10. digit_value (''0123456789'' ! k) = k"
    by (simp add: digit_value_def less_Suc_eq numeral_nat)
  then show ?thesis by (simp add: digit_char_def)
qed

lemma digit_char_digit: "digit_char d \<in> set ''0123456789''"
  unfolding digit_char_def by (intro nth_mem) simp

lemma digit_char_not_minus: "digit_char d \<noteq> CHR ''-''"
  using digit_char_digit[of d] by auto

lemma read_digits_snoc: "read_digits (ds @ [c]) = 10 * read_digits ds + digit_value c"
  by (simp add: read_digits_def)

lemma read_dec_digits: "read_digits (dec_digits n) = n"
proof (induction n rule: dec_digits.induct)
  case (1 n)
  show ?case
  proof (cases "n < 10")
    case True
    then show ?thesis
      by (subst dec_digits.simps) (simp add: read_digits_def digit_char_value)
  next
    case False
    with 1 have "read_digits (dec_digits (n div 10)) = n div 10" by simp
    with False show ?thesis
      by (subst dec_digits.simps) (simp add: read_digits_snoc digit_char_value)
  qed
qed

lemma dec_digits_digits: "set (dec_digits n) \<subseteq> set ''0123456789''"
proof (induction n rule: dec_digits.induct)
  case (1 n)
  show ?case
  proof (cases "n < 10")
    case True
    have "set [digit_char n] \<subseteq> set ''0123456789''"
      using digit_char_digit[of n] by (simp only: list.set) blast
    with True show ?thesis
      by (subst dec_digits.simps) (simp only: if_True)
  next
    case False
    with 1 have "set (dec_digits (n div 10)) \<subseteq> set ''0123456789''" by simp
    moreover have "set [digit_char n] \<subseteq> set ''0123456789''"
      using digit_char_digit[of n] by (simp only: list.set) blast
    ultimately show ?thesis using False
      by (subst dec_digits.simps) (simp only: if_False set_append Un_subset_iff)
  qed
qed

lemma dec_digits_nonempty: "dec_digits n \<noteq> []"
  by (subst dec_digits.simps) simp

lemma hd_dec_digits_not_minus: "hd (dec_digits n) \<noteq> CHR ''-''"
proof -
  have "hd (dec_digits n) \<in> set (dec_digits n)"
    using dec_digits_nonempty by (rule hd_in_set)
  with dec_digits_digits[of n] have "hd (dec_digits n) \<in> set ''0123456789''" by blast
  then show ?thesis by auto
qed

lemma read_decimal_toString: "read_decimal (toString n) = n"
proof (cases "n < 0")
  case True
  then show ?thesis by (simp add: toString_def read_dec_digits)
next
  case False
  obtain c cs where d: "dec_digits (nat n) = c # cs"
    using dec_digits_nonempty[of "nat n"] by (cases "dec_digits (nat n)") auto
  with hd_dec_digits_not_minus[of "nat n"] have "c \<noteq> CHR ''-''" by simp
  moreover have "read_digits (c # cs) = nat n" using read_dec_digits[of "nat n"] d by simp
  ultimately show ?thesis using False d by (simp add: toString_def)
qed

subsection \<open>Errors of the apply phase\<close>

lemma createBlock_error: "createBlock L b = (Some e, L') \<Longrightarrow> e = StoreError"
  by (auto simp: createBlock_def split: if_splits)

lemma createTransaction_error: "createTransaction L tx bid = (Some e, L') \<Longrightarrow> e = StoreError"
  by (auto simp: createTransaction_def split: if_splits)

lemma createOutput_error: "createOutput L t i out = (Some e, L') \<Longrightarrow> e = StoreError"
  by (auto simp: createOutput_def split: if_splits)

lemma markOutputAsSpent_error:
  "markOutputAsSpent L t i s j = (Some e, L') \<Longrightarrow> e = OutputNotFoundOrSpent t i"
  by (auto simp: markOutputAsSpent_def Let_def split: if_splits)

lemma spendInputs_error:
  "spendInputs L t i ins = (Some e, L') \<Longrightarrow> class_of e = PlainError"
proof (induction ins arbitrary: L i)
  case Nil
  then show ?case by simp
next
  case (Cons inp rest)
  from Cons.prems
  consider "markOutputAsSpent L (txId inp) (index inp) t i = (Some e, L')"
    | L1 where "spendInputs L1 t (Suc i) rest = (Some e, L')"
    by (auto simp: and_then_Some)
  then show ?case
  proof cases
    case 1
    then show ?thesis by (auto dest: markOutputAsSpent_error)
  next
    case 2
    then show ?thesis by (rule Cons.IH)
  qed
qed

lemma createOutputs_error:
  "createOutputs L t i outs = (Some e, L') \<Longrightarrow> class_of e = PlainError"
proof (induction outs arbitrary: L i)
  case Nil
  then show ?case by simp
next
  case (Cons out rest)
  from Cons.prems
  consider "createOutput L t i out = (Some e, L')"
    | L1 where "createOutputs L1 t (Suc i) rest = (Some e, L')"
    by (auto simp: and_then_Some)
  then show ?case
  proof cases
    case 1
    then show ?thesis by (auto dest: createOutput_error)
  next
    case 2
    then show ?thesis by (rule Cons.IH)
  qed
qed

lemma processTransaction_error:
  "processTransaction L tx bid = (Some e, L') \<Longrightarrow> class_of e = PlainError"
  unfolding processTransaction_def
  by (auto simp: and_then_Some
           dest: createTransaction_error spendInputs_error createOutputs_error)

lemma processTransactions_error:
  "processTransactions L txs bid = (Some e, L') \<Longrightarrow> class_of e = PlainError"
proof (induction txs arbitrary: L)
  case Nil
  then show ?case by simp
next
  case (Cons tx rest)
  from Cons.prems
  consider "processTransaction L tx bid = (Some e, L')"
    | L1 where "processTransactions L1 rest bid = (Some e, L')"
    by (auto simp: and_then_Some)
  then show ?case
  proof cases
    case 1
    then show ?thesis by (rule processTransaction_error)
  next
    case 2
    then show ?thesis by (rule Cons.IH)
  qed
qed

lemma applyBlock_error: "applyBlock L b = (Some e, L') \<Longrightarrow> class_of e = PlainError"
  unfolding applyBlock_def
  by (auto simp: and_then_Some dest: createBlock_error processTransactions_error)

lemma processBlock_Some:
  "processBlock L b = (Some e, L') \<longleftrightarrow>
     L' = L \<and> (validateBlock L b = Some e \<or>
               (validateBlock L b = None \<and> (\<exists>Lp. applyBlock L b = (Some e, Lp))))"
  by (auto simp: processBlock_def in_transaction_def split: option.splits prod.splits)

lemma admission_checks_class:
  "admission_checks L b = Some e \<Longrightarrow> class_of e \<noteq> PlainError"
  by (auto simp: admission_checks_def Let_def input_error_def split: if_splits option.splits)

subsection \<open>The test scenario, evaluated\<close>

lemma hash_1tx1:
  "sha256_hex ''1tx1'' = ''d1582b9e2cac15e170c39ef2e85855ffd7e6a820550a8ca16a2f016d366503dc''"
  by code_simp

lemma hash_2tx2:
  "sha256_hex ''2tx2'' = ''c4701d0bfd7179e1db6e33e947e6c718bbc4a1ae927300cd1e3bda91a930cba5''"
  by code_simp

lemma toString_1: "toString 1 = ''1''"
  by (simp add: toString_def dec_digits.simps digit_char_def)

lemma toString_2: "toString 2 = ''2''"
  by (simp add: toString_def dec_digits.simps digit_char_def)

lemma calc1: "calculateBlockHash 1 [''tx1''] = ''d1582b9e2cac15e170c39ef2e85855ffd7e6a820550a8ca16a2f016d366503dc''"
  by (simp add: calculateBlockHash_def toString_1 hash_1tx1)

lemma calc2: "calculateBlockHash 2 [''tx2''] = ''c4701d0bfd7179e1db6e33e947e6c718bbc4a1ae927300cd1e3bda91a930cba5''"
  by (simp add: calculateBlockHash_def toString_2 hash_2tx2)

lemma genesis_admitted: "processBlock empty_ledger genesis_block = (None, ledger1)"
  by (simp add: processBlock_def validateBlock_def getCurrentHeight_def empty_ledger_def
      genesis_block_def ledger1_def calc1 validateTransactionBalances_def in_transaction_def
      applyBlock_def createBlock_def and_then_def processTransaction_def createTransaction_def
      createOutput_def)

lemma block2_admitted: "processBlock ledger1 block2 = (None, ledger2)"
  by (simp add: processBlock_def validateBlock_def getCurrentHeight_def
      block2_def ledger1_def ledger2_def calc2 validateTransactionBalances_def in_transaction_def
      applyBlock_def createBlock_def and_then_def processTransaction_def createTransaction_def
      createOutput_def getOutput_def markOutputAsSpent_def spendable_def)

lemma hash_2tx3:
  "sha256_hex ''2tx3'' = ''c7f7fdef98d50dea8f5cc18fa6b90f3619e326270eef7a8b429fdbc943c5d71b''"
  by code_simp

lemma calc3: "calculateBlockHash 2 [''tx3''] = ''c7f7fdef98d50dea8f5cc18fa6b90f3619e326270eef7a8b429fdbc943c5d71b''"
  by (simp add: calculateBlockHash_def toString_2 hash_2tx3)

lemma block2_twice_valid: "validateBlock ledger1 block2_twice = None"
  by (simp add: validateBlock_def getCurrentHeight_def ledger1_def
      block2_twice_def validateTransactionBalances_def getOutput_def)

lemma block2_twice_partial:
  "applyBlock ledger1 block2_twice = (Some (OutputNotFoundOrSpent ''tx1'' 0), ledger1_partial)"
  by (simp add: applyBlock_def createBlock_def and_then_def processTransaction_def createTransaction_def
      createOutput_def markOutputAsSpent_def spendable_def ledger1_def block2_twice_def
      ledger1_partial_def calc3)

lemma rollback_future: "rollback None ledger1 5 = (Some (FUTURE_HEIGHT 1 5), ledger1)"
  by (simp add: rollback_def getCurrentHeight_def ledger1_def)

subsection \<open>What a rollback does to the tables\<close>

lemma unspend_in_compose: "unspend_in T2 (unspend_in T1 r) = unspend_in (T1 \<union> T2) r"
  by (auto simp: unspend_in_def unspend_def)

lemma unspend_in_empty: "unspend_in {} = (\<lambda>r. r)"
  by (rule ext) (simp add: unspend_in_def)

lemma unspendOutputsByTransaction_eq:
  "unspendOutputsByTransaction L t = L\<lparr>outputs_tbl := map (unspend_in {t}) (outputs_tbl L)\<rparr>"
  by (simp add: unspendOutputsByTransaction_def unspend_in_def unspend_def)

lemma unspendTransactions_eq:
  "unspendTransactions L ts = L\<lparr>outputs_tbl := map (unspend_in (set ts)) (outputs_tbl L)\<rparr>"
proof (induction ts arbitrary: L)
  case Nil
  have "map (unspend_in {}) (outputs_tbl L) = outputs_tbl L"
    by (simp add: unspend_in_empty)
  then show ?case by simp
next
  case (Cons t ts)
  have "{t} \<union> set ts = set (t # ts)" by simp
  then show ?case
    by (simp add: Cons.IH unspendOutputsByTransaction_eq unspend_in_compose o_def
        del: Un_insert_left)
qed

lemma set_getTransactionsByBlockId:
  "set (getTransactionsByBlockId L b) = fst ` {x \<in> set (transactions_tbl L). snd x = b}"
  by (auto simp: getTransactionsByBlockId_def)

lemma unspendBlocks_eq:
  "unspendBlocks L bs =
     L\<lparr>outputs_tbl :=
         map (unspend_in (fst ` {x \<in> set (transactions_tbl L). snd x \<in> set bs})) (outputs_tbl L)\<rparr>"
proof (induction bs arbitrary: L)
  case Nil
  have "map (unspend_in {}) (outputs_tbl L) = outputs_tbl L"
    by (simp add: unspend_in_empty)
  then show ?case by simp
next
  case (Cons b bs)
  have "fst ` {x \<in> set (transactions_tbl L). snd x = b} \<union>
        fst ` {x \<in> set (transactions_tbl L). snd x \<in> set bs} =
        fst ` {x \<in> set (transactions_tbl L). snd x \<in> set (b # bs)}"
    by auto
  then show ?case
    by (simp add: Cons.IH unspendTransactions_eq set_getTransactionsByBlockId
        unspend_in_compose o_def del: Un_insert_left)
qed

lemma blocks_above_iff:
  "b \<in> blocks_above L h \<longleftrightarrow> (\<exists>k. (b, k) \<in> set (blocks_tbl L) \<and> k > h)"
  by (force simp: blocks_above_def)

lemma txs_above_iff:
  "u \<in> txs_above L h \<longleftrightarrow> (\<exists>b. (u, b) \<in> set (transactions_tbl L) \<and> b \<in> blocks_above L h)"
  by (force simp: txs_above_def)

lemma txs_above_image:
  "fst ` {x \<in> set (transactions_tbl L). snd x \<in> blocks_above L h} = txs_above L h"
  by (simp add: txs_above_def)

lemma set_getBlocksAboveHeight: "set (getBlocksAboveHeight L h) = blocks_above L h"
  by (simp add: getBlocksAboveHeight_def blocks_above_def)

lemma revertBlocks_eq:
  "revertBlocks t L =
     (None, \<lparr>blocks_tbl = filter (\<lambda>r. \<not> snd r > t) (blocks_tbl L),
             transactions_tbl = filter (\<lambda>r. snd r \<notin> blocks_above L t) (transactions_tbl L),
             outputs_tbl = filter (\<lambda>r. tx_id r \<notin> txs_above L t)
                             (map (unspend_in (txs_above L t)) (outputs_tbl L))\<rparr>)"
proof -
  have b: "set (map fst (filter (\<lambda>r. snd r > t) (blocks_tbl L))) = blocks_above L t"
    by (simp only: blocks_above_def)
  have x: "set (map fst (filter (\<lambda>r. snd r \<in> blocks_above L t) (transactions_tbl L))) = txs_above L t"
    by (simp only: txs_above_def)
  have u: "outputs_tbl (unspendBlocks L (getBlocksAboveHeight L t)) =
      map (unspend_in (txs_above L t)) (outputs_tbl L)"
    by (simp add: unspendBlocks_eq set_getBlocksAboveHeight txs_above_image del: set_map set_filter)
  have k: "blocks_tbl (unspendBlocks L (getBlocksAboveHeight L t)) = blocks_tbl L"
    "transactions_tbl (unspendBlocks L (getBlocksAboveHeight L t)) = transactions_tbl L"
    by (simp_all add: unspendBlocks_eq)
  show ?thesis
    unfolding revertBlocks_def deleteBlocksAboveHeight_def Let_def
    by (simp only: u k b x)
qed

subsection \<open>Statements keep the rows consistent\<close>

lemma createBlock_None:
  "createBlock L b = (None, L') \<longleftrightarrow>
     block_id b \<notin> fst ` set (blocks_tbl L) \<and> of_int \<lfloor>height b\<rfloor> = height b \<and>
     \<lfloor>height b\<rfloor> \<notin> snd ` set (blocks_tbl L) \<and>
     L' = L\<lparr>blocks_tbl := blocks_tbl L @ [(block_id b, \<lfloor>height b\<rfloor>)]\<rparr>"
  by (auto simp: createBlock_def)

lemma createTransaction_None:
  "createTransaction L tx bid = (None, L') \<longleftrightarrow>
     trans_id tx \<notin> fst ` set (transactions_tbl L) \<and> bid \<in> fst ` set (blocks_tbl L) \<and>
     L' = L\<lparr>transactions_tbl := transactions_tbl L @ [(trans_id tx, bid)]\<rparr>"
  by (auto simp: createTransaction_def)

lemma createOutput_None:
  "createOutput L t i out = (None, L') \<longleftrightarrow>
     t \<in> fst ` set (transactions_tbl L) \<and> (t, i) \<notin> key_of ` set (outputs_tbl L) \<and>
     L' = L\<lparr>outputs_tbl := outputs_tbl L @
              [\<lparr>tx_id = t, output_index = i, address = out_address out,
                value = out_value out, spent = False, spent_by_tx = None,
                spent_by_index = None\<rparr>]\<rparr>"
  by (auto simp: createOutput_def key_of_def[abs_def])

lemma markOutputAsSpent_None:
  "markOutputAsSpent L t i s j = (None, L') \<longleftrightarrow>
     (\<exists>r \<in> set (outputs_tbl L). spendable t i r) \<and>
     L' = L\<lparr>outputs_tbl := map (mark t i s j) (outputs_tbl L)\<rparr>"
  by (auto simp: markOutputAsSpent_def Let_def mark_def[abs_def] filter_empty_conv)

lemma key_of_mark: "key_of (mark t i s j r) = key_of r"
  by (simp add: mark_def key_of_def)

lemma tx_id_mark: "tx_id (mark t i s j r) = tx_id r"
  by (simp add: mark_def)

lemma value_mark: "value (mark t i s j r) = value r"
  by (simp add: mark_def)

lemma createBlock_consistent:
  assumes "createBlock L b = (None, L')" and "rows_consistent L"
  shows "rows_consistent L'"
  using assms
  by (auto simp: createBlock_None rows_consistent_def references_intact_def
      spenders_recorded_def spender_recorded_def keys_distinct_def)

lemma createTransaction_consistent:
  assumes "createTransaction L tx bid = (None, L')" and "rows_consistent L"
  shows "rows_consistent L'"
proof -
  from assms(1) have L': "L' = L\<lparr>transactions_tbl := transactions_tbl L @ [(trans_id tx, bid)]\<rparr>"
    and bid: "bid \<in> fst ` set (blocks_tbl L)"
    by (simp_all add: createTransaction_None)
  from assms(2) bid have "references_intact L'"
    by (auto simp: L' rows_consistent_def references_intact_def)
  moreover from assms(2) have "spenders_recorded L'"
    by (auto simp: L' rows_consistent_def spenders_recorded_def spender_recorded_def
        split: if_splits)
  moreover from assms(2) have "keys_distinct L'"
    by (simp add: L' rows_consistent_def keys_distinct_def)
  ultimately show ?thesis by (simp add: rows_consistent_def)
qed

lemma markOutputAsSpent_consistent:
  assumes "markOutputAsSpent L t i s j = (None, L')" and "rows_consistent L"
    and "s \<in> fst ` set (transactions_tbl L)"
  shows "rows_consistent L'"
proof -
  from assms(1) have L': "L' = L\<lparr>outputs_tbl := map (mark t i s j) (outputs_tbl L)\<rparr>"
    by (simp add: markOutputAsSpent_None)
  from assms(2) have "references_intact L'"
    by (auto simp: L' rows_consistent_def references_intact_def tx_id_mark)
  moreover have "spenders_recorded L'"
    unfolding spenders_recorded_def
  proof
    fix r' assume "r' \<in> set (outputs_tbl L')"
    then obtain r where r: "r \<in> set (outputs_tbl L)" and r': "r' = mark t i s j r"
      by (auto simp: L')
    from assms(2) r have sr: "spender_recorded L r"
      by (simp add: rows_consistent_def spenders_recorded_def)
    show "spender_recorded L' r'"
    proof (cases "spendable t i r")
      case True
      with assms(3) show ?thesis
        by (simp add: r' mark_def spender_recorded_def L')
    next
      case False
      with sr show ?thesis
        by (auto simp: r' mark_def spender_recorded_def L' split: if_splits)
    qed
  qed
  moreover from assms(2) have "keys_distinct L'"
    by (simp add: L' rows_consistent_def keys_distinct_def o_def key_of_mark)
  ultimately show ?thesis by (simp add: rows_consistent_def)
qed

lemma createOutput_consistent:
  assumes "createOutput L t i out = (None, L')" and "rows_consistent L"
  shows "rows_consistent L'"
proof -
  let ?new = "\<lparr>tx_id = t, output_index = i, address = out_address out,
                value = out_value out, spent = False, spent_by_tx = None,
                spent_by_index = None\<rparr>"
  from assms(1) have L': "L' = L\<lparr>outputs_tbl := outputs_tbl L @ [?new]\<rparr>"
    and t: "t \<in> fst ` set (transactions_tbl L)"
    and k: "(t, i) \<notin> key_of ` set (outputs_tbl L)"
    by (simp_all add: createOutput_None)
  from assms(2) t have "references_intact L'"
    by (auto simp: L' rows_consistent_def references_intact_def)
  moreover from assms(2) have "spenders_recorded L'"
    by (auto simp: L' rows_consistent_def spenders_recorded_def spender_recorded_def)
  moreover from assms(2) k have "keys_distinct L'"
    by (auto simp: L' rows_consistent_def keys_distinct_def key_of_def)
  ultimately show ?thesis by (simp add: rows_consistent_def)
qed

lemma spendInputs_consistent:
  "spendInputs L s i ins = (None, L') \<Longrightarrow> rows_consistent L \<Longrightarrow>
     s \<in> fst ` set (transactions_tbl L) \<Longrightarrow> rows_consistent L'"
proof (induction ins arbitrary: L i)
  case Nil
  then show ?case by simp
next
  case (Cons inp rest)
  from Cons.prems(1) obtain L1
    where m: "markOutputAsSpent L (txId inp) (index inp) s i = (None, L1)"
      and r: "spendInputs L1 s (Suc i) rest = (None, L')"
    by (auto simp: and_then_None)
  from markOutputAsSpent_consistent[OF m Cons.prems(2,3)] have c: "rows_consistent L1" .
  from markOutputAsSpent_tables[OF m] Cons.prems(3)
  have "s \<in> fst ` set (transactions_tbl L1)" by simp
  from Cons.IH[OF r c this] show ?case .
qed

lemma createOutputs_consistent:
  "createOutputs L t i outs = (None, L') \<Longrightarrow> rows_consistent L \<Longrightarrow> rows_consistent L'"
proof (induction outs arbitrary: L i)
  case Nil
  then show ?case by simp
next
  case (Cons out rest)
  from Cons.prems(1) obtain L1
    where m: "createOutput L t i out = (None, L1)"
      and r: "createOutputs L1 t (Suc i) rest = (None, L')"
    by (auto simp: and_then_None)
  from Cons.IH[OF r createOutput_consistent[OF m Cons.prems(2)]] show ?case .
qed

lemma processTransaction_consistent:
  assumes "processTransaction L tx bid = (None, L')" and "rows_consistent L"
  shows "rows_consistent L'"
proof -
  from assms(1) obtain L1 L2
    where c: "createTransaction L tx bid = (None, L1)"
      and s: "spendInputs L1 (trans_id tx) 0 (inputs tx) = (None, L2)"
      and o: "createOutputs L2 (trans_id tx) 0 (outputs tx) = (None, L')"
    by (auto simp: processTransaction_def and_then_None)
  from c have "trans_id tx \<in> fst ` set (transactions_tbl L1)"
    by (auto simp: createTransaction_None)
  from spendInputs_consistent[OF s createTransaction_consistent[OF c assms(2)] this]
  have "rows_consistent L2" .
  from createOutputs_consistent[OF o this] show ?thesis .
qed

lemma processTransactions_consistent:
  "processTransactions L txs bid = (None, L') \<Longrightarrow> rows_consistent L \<Longrightarrow> rows_consistent L'"
proof (induction txs arbitrary: L)
  case Nil
  then show ?case by simp
next
  case (Cons tx rest)
  from Cons.prems(1) obtain L1
    where m: "processTransaction L tx bid = (None, L1)"
      and r: "processTransactions L1 rest bid = (None, L')"
    by (auto simp: and_then_None)
  from Cons.IH[OF r processTransaction_consistent[OF m Cons.prems(2)]] show ?case .
qed

lemma applyBlock_consistent:
  assumes "applyBlock L b = (None, L')" and "rows_consistent L"
  shows "rows_consistent L'"
proof -
  from assms(1) obtain L1 where c: "createBlock L b = (None, L1)"
    and p: "processTransactions L1 (transactions b) (block_id b) = (None, L')"
    by (auto simp: applyBlock_def and_then_None)
  from processTransactions_consistent[OF p createBlock_consistent[OF c assms(2)]]
  show ?thesis .
qed

subsection \<open>Heights stay contiguous\<close>

lemma getCurrentHeight_ge: "r \<in> set (blocks_tbl L) \<Longrightarrow> snd r \<le> getCurrentHeight L"
  by (auto simp: getCurrentHeight_def)

lemma getCurrentHeight_range:
  assumes "snd ` set (blocks_tbl L) = {1..t}" and "0 \<le> t"
  shows "getCurrentHeight L = t"
proof (cases "blocks_tbl L = []")
  case True
  with assms have "{1..t} = {}" by simp
  with assms(2) have "t = 0" by simp
  with True show ?thesis by (simp add: getCurrentHeight_def)
next
  case False
  then have "snd ` set (blocks_tbl L) \<noteq> {}" by simp
  with assms(1) have "{1..t} \<noteq> {}" by simp
  then have "1 \<le> t" by simp
  then have "Max {1..t} = t" by (simp add: Max_eq_iff)
  with False assms(1) show ?thesis by (simp add: getCurrentHeight_def)
qed

lemma heights_contiguous_nonneg:
  assumes "heights_contiguous L"
  shows "0 \<le> getCurrentHeight L"
proof (cases "blocks_tbl L = []")
  case True
  then show ?thesis by (simp add: getCurrentHeight_def)
next
  case False
  then have "Max (snd ` set (blocks_tbl L)) \<in> snd ` set (blocks_tbl L)"
    by (intro Max_in) auto
  with False assms have "getCurrentHeight L \<in> {1..getCurrentHeight L}"
    by (simp add: heights_contiguous_def getCurrentHeight_def)
  then show ?thesis by simp
qed

lemma processBlock_contiguous:
  assumes "processBlock L b = (None, L')" and "heights_contiguous L"
  shows "heights_contiguous L'"
proof -
  from assms(1) have v: "validateBlock L b = None" and a: "applyBlock L b = (None, L')"
    by (simp_all add: processBlock_None)
  from validateBlock_height[OF v] applyBlock_blocks[OF a]
  have b: "blocks_tbl L' = blocks_tbl L @ [(block_id b, getCurrentHeight L + 1)]" by simp
  from processBlock_height(2)[OF assms(1)] have c: "getCurrentHeight L' = getCurrentHeight L + 1" .
  from heights_contiguous_nonneg[OF assms(2)]
  have "{1..getCurrentHeight L + 1} = insert (getCurrentHeight L + 1) {1..getCurrentHeight L}"
    by auto
  with assms(2) show ?thesis
    by (simp add: heights_contiguous_def b c)
qed

lemma revertBlocks_heights:
  assumes "revertBlocks t L = (r, L')" and "heights_contiguous L"
    and "0 \<le> t" and "t \<le> getCurrentHeight L"
  shows "snd ` set (blocks_tbl L') = {1..t}"
proof -
  from assms(1) have "blocks_tbl L' = filter (\<lambda>r. \<not> snd r > t) (blocks_tbl L)"
    by (auto simp: revertBlocks_eq)
  then have "snd ` set (blocks_tbl L') = {h \<in> snd ` set (blocks_tbl L). h \<le> t}"
    by auto
  also have "\<dots> = {1..t}"
    using assms(2,4) by (auto simp: heights_contiguous_def)
  finally show ?thesis .
qed

lemma revertBlocks_height:
  assumes "revertBlocks t L = (r, L')" and "heights_contiguous L"
    and "0 \<le> t" and "t \<le> getCurrentHeight L"
  shows "getCurrentHeight L' = t" and "heights_contiguous L'"
proof -
  from revertBlocks_heights[OF assms] have s: "snd ` set (blocks_tbl L') = {1..t}" .
  from getCurrentHeight_range[OF s assms(3)] show c: "getCurrentHeight L' = t" .
  from s c show "heights_contiguous L'" by (simp add: heights_contiguous_def)
qed

lemma rollback_None:
  "rollback env L t = (None, L') \<longleftrightarrow>
     0 \<le> t \<and> t \<le> getCurrentHeight L \<and> getCurrentHeight L - t \<le> maxRollbackBlocks env \<and>
     revertBlocks t L = (None, L')"
  by (auto simp: rollback_def Let_def in_transaction_def revertBlocks_eq split: if_splits)

subsection \<open>A rollback keeps the rows consistent\<close>

lemma key_of_unspend_in: "key_of (unspend_in T r) = key_of r"
  by (simp add: unspend_in_def unspend_def key_of_def)

lemma tx_id_unspend_in: "tx_id (unspend_in T r) = tx_id r"
  by (simp add: unspend_in_def unspend_def)

lemma value_unspend_in: "value (unspend_in T r) = value r"
  by (simp add: unspend_in_def unspend_def)

lemma revertBlocks_consistent:
  assumes "revertBlocks t L = (res, L')" and "rows_consistent L"
  shows "rows_consistent L'"
proof -
  let ?GB = "blocks_above L t" and ?GT = "txs_above L t"
  from assms(1) have b: "blocks_tbl L' = filter (\<lambda>r. \<not> snd r > t) (blocks_tbl L)"
    and x: "transactions_tbl L' = filter (\<lambda>r. snd r \<notin> ?GB) (transactions_tbl L)"
    and o: "outputs_tbl L' = filter (\<lambda>r. tx_id r \<notin> ?GT) (map (unspend_in ?GT) (outputs_tbl L))"
    by (auto simp: revertBlocks_eq)
  from assms(2) have ri: "references_intact L" and sr: "spenders_recorded L"
    and kd: "keys_distinct L"
    by (simp_all add: rows_consistent_def)
  have kept_tx: "u \<in> fst ` set (transactions_tbl L')"
    if "u \<in> fst ` set (transactions_tbl L)" and "u \<notin> ?GT" for u
  proof -
    from that(1) obtain bid where m: "(u, bid) \<in> set (transactions_tbl L)" by auto
    have "bid \<notin> ?GB"
    proof
      assume "bid \<in> ?GB"
      with m have "u \<in> ?GT" by (auto simp: txs_above_iff)
      with that(2) show False by simp
    qed
    with m have "(u, bid) \<in> set (transactions_tbl L')" by (simp add: x)
    then show ?thesis by force
  qed
  have "snd ` set (transactions_tbl L') \<subseteq> fst ` set (blocks_tbl L')"
  proof
    fix bid assume "bid \<in> snd ` set (transactions_tbl L')"
    then obtain u where m: "(u, bid) \<in> set (transactions_tbl L)" and n: "bid \<notin> ?GB"
      by (auto simp: x)
    from m have "bid \<in> snd ` set (transactions_tbl L)" by force
    with ri have "bid \<in> fst ` set (blocks_tbl L)" by (auto simp: references_intact_def)
    then obtain h where h: "(bid, h) \<in> set (blocks_tbl L)" by auto
    have "\<not> h > t"
    proof
      assume "h > t"
      with h have "bid \<in> ?GB" by (auto simp: blocks_above_iff)
      with n show False by simp
    qed
    with h have "(bid, h) \<in> set (blocks_tbl L')" by (simp add: b)
    then show "bid \<in> fst ` set (blocks_tbl L')" by force
  qed
  moreover have "tx_id ` set (outputs_tbl L') \<subseteq> fst ` set (transactions_tbl L')"
  proof
    fix u assume "u \<in> tx_id ` set (outputs_tbl L')"
    then obtain r where r: "r \<in> set (outputs_tbl L)" and u: "u = tx_id r" "u \<notin> ?GT"
      by (auto simp: o tx_id_unspend_in)
    from r u(1) have "u \<in> tx_id ` set (outputs_tbl L)" by simp
    with ri have "u \<in> fst ` set (transactions_tbl L)" by (auto simp: references_intact_def)
    from kept_tx[OF this u(2)] show "u \<in> fst ` set (transactions_tbl L')" .
  qed
  ultimately have "references_intact L'" by (simp add: references_intact_def)
  moreover have "spenders_recorded L'"
    unfolding spenders_recorded_def
  proof
    fix r' assume "r' \<in> set (outputs_tbl L')"
    then obtain r where r: "r \<in> set (outputs_tbl L)" and r': "r' = unspend_in ?GT r"
      by (auto simp: o)
    from sr r have rec: "spender_recorded L r" by (simp add: spenders_recorded_def)
    show "spender_recorded L' r'"
    proof (cases "spent_by_tx r \<in> Some ` ?GT")
      case True
      then show ?thesis by (simp add: r' unspend_in_def unspend_def spender_recorded_def)
    next
      case False
      show ?thesis
      proof (cases "spent r")
        case True
        with rec obtain u where u: "u \<in> fst ` set (transactions_tbl L)" "spent_by_tx r = Some u"
          by (auto simp: spender_recorded_def)
        with False have "u \<notin> ?GT" by auto
        from kept_tx[OF u(1) this] u(2) True False show ?thesis
          by (simp add: r' unspend_in_def spender_recorded_def)
      next
        case f: False
        with rec False show ?thesis
          by (simp add: r' unspend_in_def spender_recorded_def)
      qed
    qed
  qed
  moreover have "keys_distinct L'"
  proof -
    have "map key_of (map (unspend_in ?GT) (outputs_tbl L)) = map key_of (outputs_tbl L)"
      by (simp add: o_def key_of_unspend_in)
    with kd have "distinct (map key_of (map (unspend_in ?GT) (outputs_tbl L)))"
      by (simp only: keys_distinct_def)
    then show ?thesis
      unfolding keys_distinct_def o by (rule distinct_map_filter)
  qed
  ultimately show ?thesis by (simp add: rows_consistent_def)
qed

subsection \<open>What the validator accepts\<close>

lemma map_throwing_Inr:
  "map_throwing f xs = Inr ys \<Longrightarrow> list_all2 (\<lambda>x y. f x = Inr y) xs ys"
  by (induction xs arbitrary: ys) (auto split: sum.splits)

lemma map_throwing_Inr_iff:
  "map_throwing f xs = Inr ys \<longleftrightarrow> list_all2 (\<lambda>x y. f x = Inr y) xs ys"
proof
  show "list_all2 (\<lambda>x y. f x = Inr y) xs ys \<Longrightarrow> map_throwing f xs = Inr ys"
    by (induction xs ys rule: list_all2_induct) auto
qed (rule map_throwing_Inr)

lemma list_all2_rightD:
  assumes "list_all2 P xs ys" and "y \<in> set ys"
  shows "\<exists>x. P x y"
proof -
  from assms(2) obtain n where n: "n < length ys" "ys ! n = y"
    by (auto simp: in_set_conv_nth)
  from list_all2_nthD2[OF assms(1) n(1)] n(2) show ?thesis by auto
qed

lemma nonempty_string_iff: "nonempty_string v \<longleftrightarrow> (\<exists>s. v = JStr s \<and> s \<noteq> [])"
  by (cases v) auto

lemma number_at_least_iff: "number_at_least c v \<longleftrightarrow> (\<exists>x. v = JNum x \<and> c \<le> x)"
proof (cases v)
  case (JNum x)
  then show ?thesis by (simp add: not_less)
qed simp_all

lemma isArray_iff: "isArray v \<longleftrightarrow> (\<exists>xs. v = JArr xs)"
  by (cases v) auto

lemma validateInputSchema_Inr:
  "validateInputSchema d = Inr i \<longleftrightarrow>
     is_object d \<and> (\<exists>s. get_prop d ''txId'' = JStr s \<and> s \<noteq> [] \<and> txId i = s) \<and>
     (\<exists>x. get_prop d ''index'' = JNum x \<and> 0 \<le> x \<and> index i = x)"
  by (cases i) (auto simp: validateInputSchema_def nonempty_string_iff number_at_least_iff)

lemma validateTransactionSchema_inputs:
  assumes "validateTransactionSchema d = Inr tx"
  shows "\<forall>i\<in>set (inputs tx). txId i \<noteq> [] \<and> 0 \<le> index i"
proof -
  from assms have "map_throwing validateInputSchema (elems_of (get_prop d ''inputs'')) = Inr (inputs tx)"
    by (auto simp: validateTransactionSchema_def split: if_splits sum.splits)
  then have "list_all2 (\<lambda>x y. validateInputSchema x = Inr y)
      (elems_of (get_prop d ''inputs'')) (inputs tx)"
    by (rule map_throwing_Inr)
  then have "\<forall>i\<in>set (inputs tx). \<exists>x. validateInputSchema x = Inr i"
    by (auto dest: list_all2_rightD)
  then show ?thesis by (auto simp: validateInputSchema_Inr)
qed

lemma validateBlockSchema_Inr:
  "validateBlockSchema data = Inr b \<longleftrightarrow>
     is_object data \<and>
     (\<exists>s. get_prop data ''id'' = JStr s \<and> s \<noteq> [] \<and> block_id b = s) \<and>
     (\<exists>h. get_prop data ''height'' = JNum h \<and> 1 \<le> h \<and> height b = h) \<and>
     (\<exists>ts. get_prop data ''transactions'' = JArr ts \<and>
           map_throwing validateTransactionSchema ts = Inr (transactions b))"
  by (cases b)
     (auto simp: validateBlockSchema_def nonempty_string_iff number_at_least_iff isArray_iff
           split: sum.splits)

subsection \<open>Values stay non-negative\<close>

lemma validateOutputSchema_Inr:
  "validateOutputSchema d = Inr out \<longleftrightarrow>
     is_object d \<and> (\<exists>s. get_prop d ''address'' = JStr s \<and> s \<noteq> [] \<and> out_address out = s) \<and>
     (\<exists>x. get_prop d ''value'' = JNum x \<and> 0 \<le> x \<and> out_value out = x)"
  by (cases out) (auto simp: validateOutputSchema_def nonempty_string_iff number_at_least_iff)

lemma validateTransactionSchema_outputs:
  assumes "validateTransactionSchema d = Inr tx"
  shows "\<forall>out\<in>set (outputs tx). 0 \<le> out_value out"
proof -
  from assms have "map_throwing validateOutputSchema (elems_of (get_prop d ''outputs'')) = Inr (outputs tx)"
    by (auto simp: validateTransactionSchema_def split: if_splits sum.splits)
  then have "list_all2 (\<lambda>x y. validateOutputSchema x = Inr y)
      (elems_of (get_prop d ''outputs'')) (outputs tx)"
    by (rule map_throwing_Inr)
  then have "\<forall>out\<in>set (outputs tx). \<exists>x. validateOutputSchema x = Inr out"
    by (auto dest: list_all2_rightD)
  then show ?thesis by (auto simp: validateOutputSchema_Inr)
qed

lemma validateBlockSchema_outputs:
  assumes "validateBlockSchema data = Inr b"
  shows "\<forall>tx\<in>set (transactions b). \<forall>out\<in>set (outputs tx). 0 \<le> out_value out"
proof
  fix tx assume tx: "tx \<in> set (transactions b)"
  from assms obtain ts where "map_throwing validateTransactionSchema ts = Inr (transactions b)"
    by (auto simp: validateBlockSchema_Inr)
  then have "list_all2 (\<lambda>x y. validateTransactionSchema x = Inr y) ts (transactions b)"
    by (rule map_throwing_Inr)
  with tx obtain d where "validateTransactionSchema d = Inr tx"
    by (auto dest: list_all2_rightD)
  then show "\<forall>out\<in>set (outputs tx). 0 \<le> out_value out"
    by (rule validateTransactionSchema_outputs)
qed

lemma markOutputAsSpent_nonneg:
  "markOutputAsSpent L t i s j = (None, L') \<Longrightarrow> values_nonneg L \<Longrightarrow> values_nonneg L'"
  by (auto simp: markOutputAsSpent_None values_nonneg_def value_mark)

lemma createOutput_nonneg:
  "createOutput L t i out = (None, L') \<Longrightarrow> values_nonneg L \<Longrightarrow> 0 \<le> out_value out \<Longrightarrow>
     values_nonneg L'"
  by (auto simp: createOutput_None values_nonneg_def)

lemma spendInputs_nonneg:
  "spendInputs L s i ins = (None, L') \<Longrightarrow> values_nonneg L \<Longrightarrow> values_nonneg L'"
proof (induction ins arbitrary: L i)
  case Nil
  then show ?case by simp
next
  case (Cons inp rest)
  from Cons.prems(1) obtain L1
    where m: "markOutputAsSpent L (txId inp) (index inp) s i = (None, L1)"
      and r: "spendInputs L1 s (Suc i) rest = (None, L')"
    by (auto simp: and_then_None)
  from Cons.IH[OF r markOutputAsSpent_nonneg[OF m Cons.prems(2)]] show ?case .
qed

lemma createOutputs_nonneg:
  "createOutputs L t i outs = (None, L') \<Longrightarrow> values_nonneg L \<Longrightarrow>
     \<forall>out\<in>set outs. 0 \<le> out_value out \<Longrightarrow> values_nonneg L'"
proof (induction outs arbitrary: L i)
  case Nil
  then show ?case by simp
next
  case (Cons out rest)
  from Cons.prems(1) obtain L1
    where m: "createOutput L t i out = (None, L1)"
      and r: "createOutputs L1 t (Suc i) rest = (None, L')"
    by (auto simp: and_then_None)
  from Cons.prems(3) have "0 \<le> out_value out" and rest: "\<forall>out\<in>set rest. 0 \<le> out_value out"
    by simp_all
  from Cons.IH[OF r createOutput_nonneg[OF m Cons.prems(2) this(1)] rest] show ?case .
qed

lemma processTransaction_nonneg:
  assumes "processTransaction L tx bid = (None, L')" and "values_nonneg L"
    and "\<forall>out\<in>set (outputs tx). 0 \<le> out_value out"
  shows "values_nonneg L'"
proof -
  from assms(1) obtain L1 L2
    where c: "createTransaction L tx bid = (None, L1)"
      and s: "spendInputs L1 (trans_id tx) 0 (inputs tx) = (None, L2)"
      and o: "createOutputs L2 (trans_id tx) 0 (outputs tx) = (None, L')"
    by (auto simp: processTransaction_def and_then_None)
  from c assms(2) have "values_nonneg L1"
    by (auto simp: createTransaction_None values_nonneg_def)
  from createOutputs_nonneg[OF o spendInputs_nonneg[OF s this] assms(3)] show ?thesis .
qed

lemma processTransactions_nonneg:
  "processTransactions L txs bid = (None, L') \<Longrightarrow> values_nonneg L \<Longrightarrow>
     \<forall>tx\<in>set txs. \<forall>out\<in>set (outputs tx). 0 \<le> out_value out \<Longrightarrow> values_nonneg L'"
proof (induction txs arbitrary: L)
  case Nil
  then show ?case by simp
next
  case (Cons tx rest)
  from Cons.prems(1) obtain L1
    where m: "processTransaction L tx bid = (None, L1)"
      and r: "processTransactions L1 rest bid = (None, L')"
    by (auto simp: and_then_None)
  from Cons.prems(3) have h: "\<forall>out\<in>set (outputs tx). 0 \<le> out_value out"
    and rest: "\<forall>tx\<in>set rest. \<forall>out\<in>set (outputs tx). 0 \<le> out_value out"
    by simp_all
  from Cons.IH[OF r processTransaction_nonneg[OF m Cons.prems(2) h] rest] show ?case .
qed

lemma applyBlock_nonneg:
  assumes "applyBlock L b = (None, L')" and "values_nonneg L"
    and "\<forall>tx\<in>set (transactions b). \<forall>out\<in>set (outputs tx). 0 \<le> out_value out"
  shows "values_nonneg L'"
proof -
  from assms(1) obtain L1 where c: "createBlock L b = (None, L1)"
    and p: "processTransactions L1 (transactions b) (block_id b) = (None, L')"
    by (auto simp: applyBlock_def and_then_None)
  from c assms(2) have "values_nonneg L1"
    by (auto simp: createBlock_None values_nonneg_def)
  from processTransactions_nonneg[OF p this assms(3)] show ?thesis .
qed

lemma revertBlocks_nonneg:
  "revertBlocks t L = (res, L') \<Longrightarrow> values_nonneg L \<Longrightarrow> values_nonneg L'"
  by (auto simp: revertBlocks_eq values_nonneg_def value_unspend_in)

subsection \<open>Every reachable state is well formed\<close>

lemma submitBlock_None:
  "submitBlock L body = (None, L') \<longleftrightarrow>
     (\<exists>b. validateBlockSchema body = Inr b \<and> processBlock L b = (None, L'))"
  by (auto simp: submitBlock_def split: sum.splits)

lemma wf_empty: "wf_ledger empty_ledger" "values_nonneg empty_ledger"
  by (simp_all add: wf_ledger_def heights_contiguous_def rows_consistent_def
      references_intact_def spenders_recorded_def keys_distinct_def values_nonneg_def
      empty_ledger_def getCurrentHeight_def)

lemma processBlock_wf:
  assumes "processBlock L b = (None, L')" and "wf_ledger L"
  shows "wf_ledger L'"
  using assms processBlock_contiguous[OF assms(1)] applyBlock_consistent[of L b L']
  by (simp add: wf_ledger_def processBlock_None)

lemma rollback_wf:
  assumes "rollback env L t = (None, L')" and "wf_ledger L"
  shows "wf_ledger L'"
proof -
  from assms(1) have r: "revertBlocks t L = (None, L')" and t: "0 \<le> t" "t \<le> getCurrentHeight L"
    by (simp_all add: rollback_None)
  from assms(2) have "heights_contiguous L" "rows_consistent L"
    by (simp_all add: wf_ledger_def)
  from revertBlocks_height(2)[OF r this(1) t] revertBlocks_consistent[OF r this(2)]
  show ?thesis by (simp add: wf_ledger_def)
qed

lemma reachable_wf: "reachable L \<Longrightarrow> wf_ledger L \<and> values_nonneg L"
proof (induction rule: reachable.induct)
  case start
  show ?case by (simp add: wf_empty)
next
  case (block L body L')
  from block.hyps(2) obtain b where v: "validateBlockSchema body = Inr b"
    and p: "processBlock L b = (None, L')"
    by (auto simp: submitBlock_None)
  from p have a: "applyBlock L b = (None, L')" by (simp add: processBlock_None)
  from block.IH processBlock_wf[OF p] applyBlock_nonneg[OF a _ validateBlockSchema_outputs[OF v]]
  show ?case by simp
next
  case (rolled_back L env targetHeight L')
  from rolled_back.hyps(2) have r: "revertBlocks targetHeight L = (None, L')"
    by (simp add: rollback_None)
  from rolled_back.IH rollback_wf[OF rolled_back.hyps(2)] revertBlocks_nonneg[OF r]
  show ?case by simp
qed

subsection \<open>The test scenario is reachable, and rolled back\<close>

lemma genesis_body_valid: "validateBlockSchema genesis_body = Inr genesis_block"
  by (simp add: validateBlockSchema_def validateTransactionSchema_def validateInputSchema_def
      validateOutputSchema_def genesis_body_def genesis_block_def)

lemma block2_body_valid: "validateBlockSchema block2_body = Inr block2"
  by (simp add: validateBlockSchema_def validateTransactionSchema_def validateInputSchema_def
      validateOutputSchema_def block2_body_def block2_def)

lemma reachable_ledger1: "reachable ledger1"
proof -
  have "submitBlock empty_ledger genesis_body = (None, ledger1)"
    by (simp add: submitBlock_def genesis_body_valid genesis_admitted)
  with reachable.start show ?thesis by (rule reachable.block)
qed

lemma reachable_ledger2: "reachable ledger2"
proof -
  have "submitBlock ledger1 block2_body = (None, ledger2)"
    by (simp add: submitBlock_def block2_body_valid block2_admitted)
  with reachable_ledger1 show ?thesis by (rule reachable.block)
qed

lemma height_ledger1: "getCurrentHeight ledger1 = 1"
  by (simp add: getCurrentHeight_def ledger1_def)

lemma height_ledger2: "getCurrentHeight ledger2 = 2"
  by (simp add: getCurrentHeight_def ledger2_def)

lemma revert_ledger2: "revertBlocks 1 ledger2 = (None, ledger1)"
proof -
  have b: "blocks_above ledger2 1 = {''c4701d0bfd7179e1db6e33e947e6c718bbc4a1ae927300cd1e3bda91a930cba5''}"
    by (simp add: blocks_above_def ledger2_def)
  have x: "txs_above ledger2 1 = {''tx2''}"
    unfolding txs_above_def b by (simp add: ledger2_def)
  show ?thesis
    unfolding revertBlocks_eq b x
    by (simp add: ledger2_def ledger1_def unspend_in_def unspend_def)
qed

lemma rollback_ledger2: "rollback None ledger2 1 = (None, ledger1)"
  by (simp add: rollback_None height_ledger2 maxRollbackBlocks_def revert_ledger2)

subsection \<open>Balances and spending\<close>







subsection \<open>What applying a block does to the tables\<close>

lemma createTransaction_outputs:
  "createTransaction L tx bid = (r, L') \<Longrightarrow> outputs_tbl L' = outputs_tbl L"
  by (auto simp: createTransaction_def split: if_splits)

lemma processTransaction_transactions:
  assumes "processTransaction L tx bid = (None, L')"
  shows "transactions_tbl L' = transactions_tbl L @ [(trans_id tx, bid)]"
    and "trans_id tx \<notin> fst ` set (transactions_tbl L)"
proof -
  from assms obtain L1 L2
    where c: "createTransaction L tx bid = (None, L1)"
      and s: "spendInputs L1 (trans_id tx) 0 (inputs tx) = (None, L2)"
      and o: "createOutputs L2 (trans_id tx) 0 (outputs tx) = (None, L')"
    by (auto simp: processTransaction_def and_then_None)
  from c show "trans_id tx \<notin> fst ` set (transactions_tbl L)"
    by (simp add: createTransaction_None)
  from c have "transactions_tbl L1 = transactions_tbl L @ [(trans_id tx, bid)]"
    by (auto simp: createTransaction_None)
  with spendInputs_tables[OF s] createOutputs_tables[OF o]
  show "transactions_tbl L' = transactions_tbl L @ [(trans_id tx, bid)]" by simp
qed

lemma processTransactions_transactions:
  "processTransactions L txs bid = (None, L') \<Longrightarrow>
     transactions_tbl L' = transactions_tbl L @ map (\<lambda>tx. (trans_id tx, bid)) txs \<and>
     trans_id ` set txs \<inter> fst ` set (transactions_tbl L) = {}"
proof (induction txs arbitrary: L)
  case Nil
  then show ?case by simp
next
  case (Cons tx rest)
  from Cons.prems obtain L1
    where m: "processTransaction L tx bid = (None, L1)"
      and r: "processTransactions L1 rest bid = (None, L')"
    by (auto simp: and_then_None)
  note t = processTransaction_transactions[OF m]
  from Cons.IH[OF r] t(1)
  have a: "transactions_tbl L' = transactions_tbl L @ map (\<lambda>tx. (trans_id tx, bid)) (tx # rest)"
    and d: "trans_id ` set rest \<inter> fst ` set (transactions_tbl L) = {}"
    by auto
  from d t(2) have "trans_id ` set (tx # rest) \<inter> fst ` set (transactions_tbl L) = {}"
    by auto
  with a show ?case by simp
qed

lemma spend_step_refl: "spend_step T r r"
  by (simp add: spend_step_def)

lemma extends_refl: "extends T os os"
  unfolding extends_def
  by (rule exI[of _ os], rule exI[of _ "[]"]) (simp add: list_all2_refl spend_step_refl)

lemma spend_step_mark:
  assumes "spend_step T r0 r" and "s \<in> T"
  shows "spend_step T r0 (mark t i s j r)"
proof (cases "spendable t i r")
  case False
  with assms(1) show ?thesis by (simp add: mark_def)
next
  case True
  then have u: "\<not> spent r" by (simp add: spendable_def)
  with assms(1) have "r = r0" by (auto simp: spend_step_def)
  with True u assms(2) show ?thesis by (auto simp: mark_def spend_step_def)
qed

lemma extends_mark:
  assumes "extends T os0 os" and "s \<in> T"
  shows "extends T os0 (map (mark t i s j) os)"
proof -
  from assms(1) obtain olds news where os: "os = olds @ news"
    and a: "list_all2 (spend_step T) os0 olds" and n: "\<forall>r \<in> set news. tx_id r \<in> T"
    by (auto simp: extends_def)
  from a have "list_all2 (spend_step T) os0 (map (mark t i s j) olds)"
    by (auto simp: list_all2_conv_all_nth intro: spend_step_mark[OF _ assms(2)])
  moreover from n have "\<forall>r \<in> set (map (mark t i s j) news). tx_id r \<in> T"
    by (auto simp: tx_id_mark)
  ultimately show ?thesis
    unfolding extends_def os
    by (intro exI[of _ "map (mark t i s j) olds"] exI[of _ "map (mark t i s j) news"]) simp
qed

lemma extends_append:
  assumes "extends T os0 os" and "tx_id new \<in> T"
  shows "extends T os0 (os @ [new])"
proof -
  from assms(1) obtain olds news where os: "os = olds @ news"
    and a: "list_all2 (spend_step T) os0 olds" and n: "\<forall>r \<in> set news. tx_id r \<in> T"
    by (auto simp: extends_def)
  from a n assms(2) show ?thesis
    unfolding extends_def os
    by (intro exI[of _ olds] exI[of _ "news @ [new]"]) simp
qed

lemma spendInputs_extends:
  "spendInputs L s i ins = (None, L') \<Longrightarrow> s \<in> T \<Longrightarrow> extends T os0 (outputs_tbl L) \<Longrightarrow>
     extends T os0 (outputs_tbl L')"
proof (induction ins arbitrary: L i)
  case Nil
  then show ?case by simp
next
  case (Cons inp rest)
  from Cons.prems(1) obtain L1
    where m: "markOutputAsSpent L (txId inp) (index inp) s i = (None, L1)"
      and r: "spendInputs L1 s (Suc i) rest = (None, L')"
    by (auto simp: and_then_None)
  from m have "outputs_tbl L1 = map (mark (txId inp) (index inp) s i) (outputs_tbl L)"
    by (simp add: markOutputAsSpent_None)
  with extends_mark[OF Cons.prems(3,2)] have "extends T os0 (outputs_tbl L1)" by simp
  from Cons.IH[OF r Cons.prems(2) this] show ?case .
qed

lemma createOutputs_extends:
  "createOutputs L t i outs = (None, L') \<Longrightarrow> t \<in> T \<Longrightarrow> extends T os0 (outputs_tbl L) \<Longrightarrow>
     extends T os0 (outputs_tbl L')"
proof (induction outs arbitrary: L i)
  case Nil
  then show ?case by simp
next
  case (Cons out rest)
  from Cons.prems(1) obtain L1
    where m: "createOutput L t i out = (None, L1)"
      and r: "createOutputs L1 t (Suc i) rest = (None, L')"
    by (auto simp: and_then_None)
  from m obtain new where "outputs_tbl L1 = outputs_tbl L @ [new]" and "tx_id new = t"
    by (auto simp: createOutput_None)
  with extends_append[OF Cons.prems(3), of new] Cons.prems(2)
  have "extends T os0 (outputs_tbl L1)" by simp
  from Cons.IH[OF r Cons.prems(2) this] show ?case .
qed

lemma processTransaction_extends:
  assumes "processTransaction L tx bid = (None, L')" and "trans_id tx \<in> T"
    and "extends T os0 (outputs_tbl L)"
  shows "extends T os0 (outputs_tbl L')"
proof -
  from assms(1) obtain L1 L2
    where c: "createTransaction L tx bid = (None, L1)"
      and s: "spendInputs L1 (trans_id tx) 0 (inputs tx) = (None, L2)"
      and o: "createOutputs L2 (trans_id tx) 0 (outputs tx) = (None, L')"
    by (auto simp: processTransaction_def and_then_None)
  from createTransaction_outputs[OF c] assms(3) have "extends T os0 (outputs_tbl L1)" by simp
  from createOutputs_extends[OF o assms(2) spendInputs_extends[OF s assms(2) this]]
  show ?thesis .
qed

lemma processTransactions_extends:
  "processTransactions L txs bid = (None, L') \<Longrightarrow> trans_id ` set txs \<subseteq> T \<Longrightarrow>
     extends T os0 (outputs_tbl L) \<Longrightarrow> extends T os0 (outputs_tbl L')"
proof (induction txs arbitrary: L)
  case Nil
  then show ?case by simp
next
  case (Cons tx rest)
  from Cons.prems(1) obtain L1
    where m: "processTransaction L tx bid = (None, L1)"
      and r: "processTransactions L1 rest bid = (None, L')"
    by (auto simp: and_then_None)
  from Cons.prems(2) have t: "trans_id tx \<in> T" and ts: "trans_id ` set rest \<subseteq> T"
    by simp_all
  from Cons.IH[OF r ts processTransaction_extends[OF m t Cons.prems(3)]] show ?case .
qed

lemma applyBlock_tables:
  assumes "applyBlock L b = (None, L')"
  shows "block_id b \<notin> fst ` set (blocks_tbl L)"
    and "transactions_tbl L' =
           transactions_tbl L @ map (\<lambda>tx. (trans_id tx, block_id b)) (transactions b)"
    and "trans_id ` set (transactions b) \<inter> fst ` set (transactions_tbl L) = {}"
    and "extends (trans_id ` set (transactions b)) (outputs_tbl L) (outputs_tbl L')"
proof -
  from assms obtain L1 where c: "createBlock L b = (None, L1)"
    and p: "processTransactions L1 (transactions b) (block_id b) = (None, L')"
    by (auto simp: applyBlock_def and_then_None)
  from c show "block_id b \<notin> fst ` set (blocks_tbl L)"
    by (simp add: createBlock_None)
  from c have t: "transactions_tbl L1 = transactions_tbl L" and o: "outputs_tbl L1 = outputs_tbl L"
    by (auto simp: createBlock_None)
  from processTransactions_transactions[OF p] t
  show "transactions_tbl L' =
           transactions_tbl L @ map (\<lambda>tx. (trans_id tx, block_id b)) (transactions b)"
    and "trans_id ` set (transactions b) \<inter> fst ` set (transactions_tbl L) = {}"
    by simp_all
  from processTransactions_extends[OF p subset_refl, of "outputs_tbl L"] extends_refl o
  show "extends (trans_id ` set (transactions b)) (outputs_tbl L) (outputs_tbl L')"
    by simp
qed

subsection \<open>Rolling back the block just applied\<close>

lemma spend_step_tx_id: "spend_step T r r' \<Longrightarrow> tx_id r' = tx_id r"
  by (auto simp: spend_step_def)

lemma unspend_in_spend_step:
  assumes "spend_step T r r'" and "spender_recorded L r"
    and "T \<inter> fst ` set (transactions_tbl L) = {}"
  shows "unspend_in T r' = r"
proof (cases "r' = r")
  case True
  show ?thesis
  proof (cases "spent r")
    case s: True
    with assms(2) obtain u where "u \<in> fst ` set (transactions_tbl L)" "spent_by_tx r = Some u"
      by (auto simp: spender_recorded_def)
    with assms(3) have "spent_by_tx r \<notin> Some ` T" by auto
    with True show ?thesis by (simp add: unspend_in_def)
  next
    case False
    with assms(2) have "spent_by_tx r = None" by (simp add: spender_recorded_def)
    with True show ?thesis by (auto simp: unspend_in_def)
  qed
next
  case False
  with assms(1) obtain t j where u: "\<not> spent r" and t: "t \<in> T"
    and r': "r' = r\<lparr>spent := True, spent_by_tx := Some t, spent_by_index := Some j\<rparr>"
    by (auto simp: spend_step_def)
  from u assms(2) have "spent_by_tx r = None" "spent_by_index r = None"
    by (simp_all add: spender_recorded_def)
  with u t show ?thesis
    by (simp add: r' unspend_in_def unspend_def)
qed

lemma undo_outputs:
  assumes "extends T os os'" and "\<forall>r \<in> set os. spender_recorded L r"
    and "tx_id ` set os \<subseteq> fst ` set (transactions_tbl L)"
    and "T \<inter> fst ` set (transactions_tbl L) = {}"
  shows "filter (\<lambda>r. tx_id r \<notin> T) (map (unspend_in T) os') = os"
proof -
  from assms(1) obtain olds news where os': "os' = olds @ news"
    and a: "list_all2 (spend_step T) os olds" and n: "\<forall>r \<in> set news. tx_id r \<in> T"
    by (auto simp: extends_def)
  have "map (unspend_in T) olds = os"
  proof (rule nth_equalityI)
    from a show "length (map (unspend_in T) olds) = length os"
      by (simp add: list_all2_lengthD)
    fix k assume "k < length (map (unspend_in T) olds)"
    then have k: "k < length olds" by simp
    with a have k': "k < length os" by (simp add: list_all2_lengthD)
    from list_all2_nthD2[OF a k] have "spend_step T (os ! k) (olds ! k)" .
    moreover from assms(2) k' have "spender_recorded L (os ! k)" by simp
    ultimately have "unspend_in T (olds ! k) = os ! k"
      using assms(4) by (rule unspend_in_spend_step)
    with k show "map (unspend_in T) olds ! k = os ! k" by simp
  qed
  moreover have "filter (\<lambda>r. tx_id r \<notin> T) os = os"
    using assms(3,4) by (auto simp: filter_id_conv)
  moreover have "filter (\<lambda>r. tx_id r \<notin> T) (map (unspend_in T) news) = []"
    using n by (auto simp: filter_empty_conv tx_id_unspend_in)
  ultimately show ?thesis by (simp add: os')
qed

lemma revert_applied:
  assumes a: "applyBlock L b = (None, L')" and h: "height b = of_int (getCurrentHeight L + 1)"
    and w: "wf_ledger L"
  shows "revertBlocks (getCurrentHeight L) L' = (None, L)"
proof -
  let ?c = "getCurrentHeight L" and ?T = "trans_id ` set (transactions b)"
  from w have ri: "references_intact L" and sr: "spenders_recorded L"
    by (simp_all add: wf_ledger_def rows_consistent_def)
  from applyBlock_blocks[OF a] h
  have bl: "blocks_tbl L' = blocks_tbl L @ [(block_id b, ?c + 1)]" by simp
  note t = applyBlock_tables[OF a]
  have le: "\<forall>r \<in> set (blocks_tbl L). \<not> snd r > ?c"
    by (auto simp: not_less intro: getCurrentHeight_ge)
  then have f: "filter (\<lambda>r. snd r > ?c) (blocks_tbl L) = []"
    "filter (\<lambda>r. \<not> snd r > ?c) (blocks_tbl L) = blocks_tbl L"
    by (auto simp: filter_empty_conv filter_id_conv)
  have gb: "blocks_above L' ?c = {block_id b}"
    by (simp add: blocks_above_def bl f)
  have b1: "filter (\<lambda>r. \<not> snd r > ?c) (blocks_tbl L') = blocks_tbl L"
    by (simp add: bl f)
  have old: "\<forall>r \<in> set (transactions_tbl L). snd r \<noteq> block_id b"
  proof
    fix r assume "r \<in> set (transactions_tbl L)"
    then have "snd r \<in> snd ` set (transactions_tbl L)" by simp
    with ri have m: "snd r \<in> fst ` set (blocks_tbl L)" by (auto simp: references_intact_def)
    show "snd r \<noteq> block_id b"
    proof
      assume "snd r = block_id b"
      with m have "block_id b \<in> fst ` set (blocks_tbl L)" by simp
      with t(1) show False by simp
    qed
  qed
  then have g: "filter (\<lambda>r. snd r \<in> {block_id b}) (transactions_tbl L) = []"
    "filter (\<lambda>r. snd r \<notin> {block_id b}) (transactions_tbl L) = transactions_tbl L"
    by (auto simp: filter_empty_conv filter_id_conv)
  let ?new = "map (\<lambda>tx. (trans_id tx, block_id b)) (transactions b)"
  have n: "filter (\<lambda>r. snd r \<in> {block_id b}) ?new = ?new"
    "filter (\<lambda>r. snd r \<notin> {block_id b}) ?new = []"
    by (auto simp: filter_empty_conv filter_id_conv)
  have "txs_above L' ?c = set (map fst ?new)"
    by (simp only: txs_above_def gb t(2) filter_append g n append_Nil)
  then have gt: "txs_above L' ?c = ?T"
    by (simp add: o_def)
  have t1: "filter (\<lambda>r. snd r \<notin> blocks_above L' ?c) (transactions_tbl L') = transactions_tbl L"
    by (simp only: gb t(2) filter_append g n append_Nil2)
  from sr have "\<forall>r \<in> set (outputs_tbl L). spender_recorded L r"
    by (simp add: spenders_recorded_def)
  moreover from ri have "tx_id ` set (outputs_tbl L) \<subseteq> fst ` set (transactions_tbl L)"
    by (simp add: references_intact_def)
  ultimately
  have o1: "filter (\<lambda>r. tx_id r \<notin> ?T) (map (unspend_in ?T) (outputs_tbl L')) = outputs_tbl L"
    using t(3) by (intro undo_outputs[OF t(4)])
  show ?thesis
    by (simp add: revertBlocks_eq b1 t1 gt o1)
qed

lemma spent_by_applied:
  assumes "extends T os os'" and "r' \<in> set os'" and "tx_id r' \<notin> T"
    and "\<forall>r \<in> set os. spender_recorded L r"
    and "T \<inter> fst ` set (transactions_tbl L) = {}"
  shows "unspend_in T r' \<in> set os"
proof -
  from assms(1) obtain olds news where os': "os' = olds @ news"
    and a: "list_all2 (spend_step T) os olds" and n: "\<forall>r \<in> set news. tx_id r \<in> T"
    by (auto simp: extends_def)
  from assms(2,3) n have "r' \<in> set olds" by (auto simp: os')
  then obtain k where k: "k < length olds" "olds ! k = r'"
    by (auto simp: in_set_conv_nth)
  with a have k': "k < length os" by (simp add: list_all2_lengthD)
  from list_all2_nthD2[OF a k(1)] k(2) have "spend_step T (os ! k) r'" by simp
  moreover from assms(4) k' have "spender_recorded L (os ! k)" by simp
  ultimately have "unspend_in T r' = os ! k"
    using assms(5) by (rule unspend_in_spend_step)
  with k' show ?thesis by simp
qed

subsection \<open>A reference spent twice in one block\<close>

lemma spendable_refers: "spendable t i r \<longleftrightarrow> refers (t, i) r \<and> \<not> spent r"
  by (simp add: spendable_def refers_def)

lemma refers_mark: "refers k (mark t i s j r) = refers k r"
  by (simp add: refers_def mark_def)

lemma spent_mark: "spent r \<Longrightarrow> spent (mark t i s j r)"
  by (simp add: mark_def)

lemma all_spent_blocks_mark:
  assumes "all_spent (t, i) L"
  shows "fst (markOutputAsSpent L t i s j) \<noteq> None"
proof -
  from assms have "\<forall>r \<in> set (outputs_tbl L). \<not> spendable t i r"
    by (auto simp: all_spent_def spendable_refers)
  then have "filter (spendable t i) (outputs_tbl L) = []"
    by (simp add: filter_empty_conv)
  then show ?thesis by (simp add: markOutputAsSpent_def Let_def)
qed

lemma mark_makes_all_spent:
  assumes "markOutputAsSpent L t i s j = (None, L')"
  shows "all_spent (t, i) L'"
proof -
  from assms obtain r0 where r0: "r0 \<in> set (outputs_tbl L)" "spendable t i r0"
    and L': "outputs_tbl L' = map (mark t i s j) (outputs_tbl L)"
    by (auto simp: markOutputAsSpent_None)
  from r0 have "mark t i s j r0 \<in> set (outputs_tbl L')" "refers (t, i) (mark t i s j r0)"
    by (simp_all add: L' refers_mark spendable_refers)
  then have "\<exists>r \<in> set (outputs_tbl L'). refers (t, i) r" by blast
  moreover have "\<forall>r \<in> set (outputs_tbl L'). refers (t, i) r \<longrightarrow> spent r"
    by (auto simp: L' refers_mark mark_def spendable_refers)
  ultimately show ?thesis by (simp add: all_spent_def)
qed

lemma mark_keeps_all_spent:
  assumes "markOutputAsSpent L t i s j = (None, L')" and "all_spent k L"
  shows "all_spent k L'"
proof -
  from assms(1) have L': "outputs_tbl L' = map (mark t i s j) (outputs_tbl L)"
    by (simp add: markOutputAsSpent_None)
  from assms(2) obtain r0 where "r0 \<in> set (outputs_tbl L)" "refers k r0"
    by (auto simp: all_spent_def)
  then have "mark t i s j r0 \<in> set (outputs_tbl L')" "refers k (mark t i s j r0)"
    by (simp_all add: L' refers_mark)
  then have "\<exists>r \<in> set (outputs_tbl L'). refers k r" by blast
  moreover from assms(2) have "\<forall>r \<in> set (outputs_tbl L'). refers k r \<longrightarrow> spent r"
    by (auto simp: L' refers_mark all_spent_def intro: spent_mark)
  ultimately show ?thesis by (simp add: all_spent_def)
qed

lemma createOutput_keeps_all_spent:
  assumes "createOutput L t i out = (None, L')" and "all_spent k L"
  shows "all_spent k L'"
proof -
  let ?new = "\<lparr>tx_id = t, output_index = i, address = out_address out,
                value = out_value out, spent = False, spent_by_tx = None,
                spent_by_index = None\<rparr>"
  from assms(1) have L': "outputs_tbl L' = outputs_tbl L @ [?new]"
    and fresh: "(t, i) \<notin> key_of ` set (outputs_tbl L)"
    by (simp_all add: createOutput_None)
  from assms(2) obtain r0 where r0: "r0 \<in> set (outputs_tbl L)" "refers k r0"
    by (auto simp: all_spent_def)
  have "\<not> refers k ?new"
  proof
    assume "refers k ?new"
    with r0(2) have "key_of r0 = (t, i)" by (simp add: refers_def key_of_def)
    with r0(1) have "(t, i) \<in> key_of ` set (outputs_tbl L)" by force
    with fresh show False by simp
  qed
  with assms(2) r0 show ?thesis
    by (auto simp: all_spent_def L')
qed

lemma spendInputs_keeps_all_spent:
  "spendInputs L s i ins = (None, L') \<Longrightarrow> all_spent k L \<Longrightarrow> all_spent k L'"
proof (induction ins arbitrary: L i)
  case Nil
  then show ?case by simp
next
  case (Cons inp rest)
  from Cons.prems(1) obtain L1
    where m: "markOutputAsSpent L (txId inp) (index inp) s i = (None, L1)"
      and r: "spendInputs L1 s (Suc i) rest = (None, L')"
    by (auto simp: and_then_None)
  from Cons.IH[OF r mark_keeps_all_spent[OF m Cons.prems(2)]] show ?case .
qed

lemma createOutputs_keeps_all_spent:
  "createOutputs L t i outs = (None, L') \<Longrightarrow> all_spent k L \<Longrightarrow> all_spent k L'"
proof (induction outs arbitrary: L i)
  case Nil
  then show ?case by simp
next
  case (Cons out rest)
  from Cons.prems(1) obtain L1
    where m: "createOutput L t i out = (None, L1)"
      and r: "createOutputs L1 t (Suc i) rest = (None, L')"
    by (auto simp: and_then_None)
  from Cons.IH[OF r createOutput_keeps_all_spent[OF m Cons.prems(2)]] show ?case .
qed

lemma spendInputs_blocked:
  "all_spent k L \<Longrightarrow> k \<in> input_key ` set ins \<Longrightarrow> fst (spendInputs L s i ins) \<noteq> None"
proof (induction ins arbitrary: L i)
  case Nil
  then show ?case by simp
next
  case (Cons inp rest)
  obtain res L1 where m: "markOutputAsSpent L (txId inp) (index inp) s i = (res, L1)"
    by (cases "markOutputAsSpent L (txId inp) (index inp) s i")
  show ?case
  proof (cases res)
    case (Some e)
    with m show ?thesis by (simp add: and_then_def)
  next
    case None
    with m have m': "markOutputAsSpent L (txId inp) (index inp) s i = (None, L1)" by simp
    have "k \<noteq> input_key inp"
    proof
      assume "k = input_key inp"
      with Cons.prems(1) have "all_spent (txId inp, index inp) L" by (simp add: input_key_def)
      from all_spent_blocks_mark[OF this, of s i] m' show False by simp
    qed
    with Cons.prems(2) have "k \<in> input_key ` set rest" by auto
    from Cons.IH[OF mark_keeps_all_spent[OF m' Cons.prems(1)] this, of "Suc i"] m'
    show ?thesis by (simp add: and_then_def)
  qed
qed

lemma spendInputs_makes_all_spent:
  "spendInputs L s i ins = (None, L') \<Longrightarrow> k \<in> input_key ` set ins \<Longrightarrow> all_spent k L'"
proof (induction ins arbitrary: L i)
  case Nil
  then show ?case by simp
next
  case (Cons inp rest)
  from Cons.prems(1) obtain L1
    where m: "markOutputAsSpent L (txId inp) (index inp) s i = (None, L1)"
      and r: "spendInputs L1 s (Suc i) rest = (None, L')"
    by (auto simp: and_then_None)
  show ?case
  proof (cases "k = input_key inp")
    case True
    with mark_makes_all_spent[OF m] have "all_spent k L1" by (simp add: input_key_def)
    from spendInputs_keeps_all_spent[OF r this] show ?thesis .
  next
    case False
    with Cons.prems(2) have "k \<in> input_key ` set rest" by auto
    from Cons.IH[OF r this] show ?thesis .
  qed
qed

lemma spendInputs_repeated:
  "\<not> distinct (map input_key ins) \<Longrightarrow> fst (spendInputs L s i ins) \<noteq> None"
proof (induction ins arbitrary: L i)
  case Nil
  then show ?case by simp
next
  case (Cons inp rest)
  obtain res L1 where m: "markOutputAsSpent L (txId inp) (index inp) s i = (res, L1)"
    by (cases "markOutputAsSpent L (txId inp) (index inp) s i")
  show ?case
  proof (cases res)
    case (Some e)
    with m show ?thesis by (simp add: and_then_def)
  next
    case None
    with m have m': "markOutputAsSpent L (txId inp) (index inp) s i = (None, L1)" by simp
    from Cons.prems consider "input_key inp \<in> input_key ` set rest"
      | "\<not> distinct (map input_key rest)"
      by auto
    then have "fst (spendInputs L1 s (Suc i) rest) \<noteq> None"
    proof cases
      case 1
      from mark_makes_all_spent[OF m'] have "all_spent (input_key inp) L1"
        by (simp add: input_key_def)
      from spendInputs_blocked[OF this 1] show ?thesis .
    next
      case 2
      then show ?thesis by (rule Cons.IH)
    qed
    with m' show ?thesis by (simp add: and_then_def)
  qed
qed

lemma createTransaction_keeps_all_spent:
  "createTransaction L tx bid = (None, L') \<Longrightarrow> all_spent k L \<Longrightarrow> all_spent k L'"
  by (auto simp: createTransaction_None all_spent_def)

lemma processTransaction_keeps_all_spent:
  assumes "processTransaction L tx bid = (None, L')" and "all_spent k L"
  shows "all_spent k L'"
proof -
  from assms(1) obtain L1 L2
    where c: "createTransaction L tx bid = (None, L1)"
      and s: "spendInputs L1 (trans_id tx) 0 (inputs tx) = (None, L2)"
      and o: "createOutputs L2 (trans_id tx) 0 (outputs tx) = (None, L')"
    by (auto simp: processTransaction_def and_then_None)
  from createOutputs_keeps_all_spent[OF o
      spendInputs_keeps_all_spent[OF s createTransaction_keeps_all_spent[OF c assms(2)]]]
  show ?thesis .
qed

lemma processTransaction_makes_all_spent:
  assumes "processTransaction L tx bid = (None, L')" and "k \<in> input_key ` set (inputs tx)"
  shows "all_spent k L'"
proof -
  from assms(1) obtain L1 L2
    where c: "createTransaction L tx bid = (None, L1)"
      and s: "spendInputs L1 (trans_id tx) 0 (inputs tx) = (None, L2)"
      and o: "createOutputs L2 (trans_id tx) 0 (outputs tx) = (None, L')"
    by (auto simp: processTransaction_def and_then_None)
  from createOutputs_keeps_all_spent[OF o spendInputs_makes_all_spent[OF s assms(2)]]
  show ?thesis .
qed

lemma processTransaction_fails:
  assumes "\<And>L1. fst (spendInputs L1 (trans_id tx) 0 (inputs tx)) \<noteq> None"
  shows "fst (processTransaction L tx bid) \<noteq> None"
proof
  assume "fst (processTransaction L tx bid) = None"
  then obtain L' where "processTransaction L tx bid = (None, L')"
    by (cases "processTransaction L tx bid") auto
  then obtain L1 L2 where "spendInputs L1 (trans_id tx) 0 (inputs tx) = (None, L2)"
    by (auto simp: processTransaction_def and_then_None)
  with assms[of L1] show False by simp
qed

lemma processTransaction_blocked:
  assumes "all_spent k L" and "k \<in> input_key ` set (inputs tx)"
  shows "fst (processTransaction L tx bid) \<noteq> None"
proof
  assume "fst (processTransaction L tx bid) = None"
  then obtain L' where "processTransaction L tx bid = (None, L')"
    by (cases "processTransaction L tx bid") auto
  then obtain L1 L2 where c: "createTransaction L tx bid = (None, L1)"
    and s: "spendInputs L1 (trans_id tx) 0 (inputs tx) = (None, L2)"
    by (auto simp: processTransaction_def and_then_None)
  from spendInputs_blocked[OF createTransaction_keeps_all_spent[OF c assms(1)] assms(2), of "trans_id tx" 0] s
  show False by simp
qed

lemma and_then_fails: "fst r \<noteq> None \<Longrightarrow> fst (and_then r f) \<noteq> None"
  by (cases r) (auto simp: and_then_def)

lemma and_then_fails_later:
  "(\<And>L1. r = (None, L1) \<Longrightarrow> fst (f L1) \<noteq> None) \<Longrightarrow> fst (and_then r f) \<noteq> None"
  by (cases r) (auto simp: and_then_def split: option.splits)

lemma processTransactions_blocked:
  "all_spent k L \<Longrightarrow> k \<in> input_key ` set (concat (map inputs txs)) \<Longrightarrow>
     fst (processTransactions L txs bid) \<noteq> None"
proof (induction txs arbitrary: L)
  case Nil
  then show ?case by simp
next
  case (Cons tx rest)
  show ?case
    unfolding processTransactions.simps
  proof (rule and_then_fails_later)
    fix L1 assume p: "processTransaction L tx bid = (None, L1)"
    have "k \<notin> input_key ` set (inputs tx)"
      using processTransaction_blocked[OF Cons.prems(1), of tx bid] p by auto
    with Cons.prems(2) have "k \<in> input_key ` set (concat (map inputs rest))" by auto
    from Cons.IH[OF processTransaction_keeps_all_spent[OF p Cons.prems(1)] this]
    show "fst (processTransactions L1 rest bid) \<noteq> None" .
  qed
qed

lemma processTransactions_repeated:
  "\<not> distinct (map input_key (concat (map inputs txs))) \<Longrightarrow>
     fst (processTransactions L txs bid) \<noteq> None"
proof (induction txs arbitrary: L)
  case Nil
  then show ?case by simp
next
  case (Cons tx rest)
  from Cons.prems consider
      "\<not> distinct (map input_key (inputs tx))"
    | "\<not> distinct (map input_key (concat (map inputs rest)))"
    | k where "k \<in> input_key ` set (inputs tx)" "k \<in> input_key ` set (concat (map inputs rest))"
    by (auto simp: distinct_append)
  then show ?case
  proof cases
    case 1
    then have "fst (processTransaction L tx bid) \<noteq> None"
      by (intro processTransaction_fails spendInputs_repeated)
    then show ?thesis by (simp add: and_then_fails)
  next
    case 2
    show ?thesis
      unfolding processTransactions.simps
      by (rule and_then_fails_later) (rule Cons.IH[OF 2])
  next
    case 3
    show ?thesis
      unfolding processTransactions.simps
    proof (rule and_then_fails_later)
      fix L1 assume p: "processTransaction L tx bid = (None, L1)"
      from processTransactions_blocked[OF processTransaction_makes_all_spent[OF p 3(1)] 3(2)]
      show "fst (processTransactions L1 rest bid) \<noteq> None" .
    qed
  qed
qed

lemma applyBlock_repeated:
  assumes "\<not> distinct (map input_key (all_inputs b))"
  shows "\<exists>e Lp. applyBlock L b = (Some e, Lp) \<and> class_of e = PlainError"
proof -
  have "fst (applyBlock L b) \<noteq> None"
    unfolding applyBlock_def
    by (rule and_then_fails_later)
       (rule processTransactions_repeated[OF assms[unfolded all_inputs_def]])
  then obtain e Lp where a: "applyBlock L b = (Some e, Lp)"
    by (cases "applyBlock L b") auto
  with applyBlock_error[OF a] show ?thesis by blast
qed

lemma block2_twice_repeats:
  "\<not> distinct (map input_key (all_inputs block2_twice))"
  "\<not> distinct (map input_key (all_inputs block2_twice_short))"
  by (simp_all add: all_inputs_def block2_twice_def block2_twice_short_def input_key_def)

lemma tx1_unspent_ledger1:
  "getOutput ledger1 ''tx1'' 0 =
     Some \<lparr>tx_id = ''tx1'', output_index = 0, address = ''addr1'', value = 100,
           spent = False, spent_by_tx = None, spent_by_index = None\<rparr>"
  by (simp add: getOutput_def ledger1_def)

subsection \<open>Height sequencing\<close>

text \<open>
  C1. A block whose height is not \<^verbatim>\<open>currentHeight + 1\<close> is refused with the error
  \<open>INVALID_HEIGHT\<close>, which reports the expected and the submitted height, and the store
  is left as it was. A block that is admitted has height \<^verbatim>\<open>currentHeight + 1\<close>, and
  afterwards the current height is one more. The empty store has height 0, and after a
  sequence of \<open>n\<close> blocks has been admitted from the empty store, the blocks had the
  heights \<open>1, \<dots>, n\<close> and the current height is \<open>n\<close>.
\<close>

theorem height_sequencing:
  "(height b \<noteq> of_int (getCurrentHeight L + 1) \<longrightarrow>
      processBlock L b = (Some (INVALID_HEIGHT (getCurrentHeight L + 1) (height b)), L))
   \<and> (processBlock L1 b1 = (None, L1') \<longrightarrow>
        height b1 = of_int (getCurrentHeight L1 + 1) \<and>
        getCurrentHeight L1' = getCurrentHeight L1 + 1)
   \<and> getCurrentHeight empty_ledger = 0
   \<and> (admit_all empty_ledger bs = Some L2 \<longrightarrow>
        getCurrentHeight L2 = int (length bs) \<and>
        map height bs = map (\<lambda>k. real (k + 1)) [0..<length bs])"
proof (intro conjI impI)
  assume "height b \<noteq> of_int (getCurrentHeight L + 1)"
  then show "processBlock L b = (Some (INVALID_HEIGHT (getCurrentHeight L + 1) (height b)), L)"
    by (simp add: processBlock_def validateBlock_def Let_def)
next
  assume "processBlock L1 b1 = (None, L1')"
  then show "height b1 = of_int (getCurrentHeight L1 + 1)"
    and "getCurrentHeight L1' = getCurrentHeight L1 + 1"
    by (rule processBlock_height)+
next
  show e: "getCurrentHeight empty_ledger = 0"
    by (simp add: getCurrentHeight_def empty_ledger_def)
  assume a: "admit_all empty_ledger bs = Some L2"
  from admit_all_height[OF a] e show "getCurrentHeight L2 = int (length bs)"
    by simp
  from admit_all_height[OF a] e
  have "map height bs = map (\<lambda>k. real_of_int (1 + int k)) [0..<length bs]"
    by simp
  also have "\<dots> = map (\<lambda>k. real (k + 1)) [0..<length bs]"
    by (rule map_cong) (simp_all add: add.commute)
  finally show "map height bs = map (\<lambda>k. real (k + 1)) [0..<length bs]" .
qed

theorem height_sequencing_witness:
  "processBlock empty_ledger block2 = (Some (INVALID_HEIGHT 1 2), empty_ledger)
   \<and> processBlock empty_ledger genesis_block = (None, ledger1)
   \<and> height genesis_block = 1 \<and> getCurrentHeight ledger1 = 1
   \<and> admit_all empty_ledger [genesis_block, block2] = Some ledger2
   \<and> getCurrentHeight ledger2 = 2 \<and> map height [genesis_block, block2] = [1, 2]"
proof -
  have a: "admit_all empty_ledger [genesis_block, block2] = Some ledger2"
    by (simp add: genesis_admitted block2_admitted)
  have h: "height block2 \<noteq> of_int (getCurrentHeight empty_ledger + 1)"
    by (simp add: block2_def getCurrentHeight_def empty_ledger_def)
  have c: "getCurrentHeight empty_ledger = 0"
    by (simp add: getCurrentHeight_def empty_ledger_def)
  have u: "[0..<2] = [0, Suc 0]"
    by (simp add: upt_rec)
  from height_sequencing[where b = block2 and L = empty_ledger and ?L1.0 = empty_ledger
      and ?b1.0 = genesis_block and L1' = ledger1 and bs = "[genesis_block, block2]"
      and ?L2.0 = ledger2] a h genesis_admitted c u
  show ?thesis
    by (simp add: block2_def)
qed


subsection \<open>Block identity\<close>

text \<open>
  C2. The expected identifier of a block is the SHA-256 digest, printed as 64 lowercase
  hexadecimal characters, of the decimal height followed by the transaction identifiers
  in block order with nothing in between. Admission ends with the identity error
  \<open>INVALID_BLOCK_ID\<close> exactly when the block has passed the height check and its
  identifier differs from that digest; the error reports the digest and the submitted
  identifier, and the store is unchanged.
\<close>

theorem block_identity:
  "length (expected_id h ids) = 64
   \<and> set (expected_id h ids) \<subseteq> set ''0123456789abcdef''
   \<and> expected_id h ids = sha256_hex (toString h @ concat ids)
   \<and> read_decimal (toString h) = h
   \<and> (processBlock L b = (Some (INVALID_BLOCK_ID e g), L') \<longleftrightarrow>
        height b = of_int (getCurrentHeight L + 1) \<and>
        e = expected_id (getCurrentHeight L + 1) (map trans_id (transactions b)) \<and>
        g = block_id b \<and> g \<noteq> e \<and> L' = L)"
proof (intro conjI)
  show "length (expected_id h ids) = 64"
    by (simp add: expected_id_def sha256_hex_length)
  show "set (expected_id h ids) \<subseteq> set ''0123456789abcdef''"
    by (simp only: expected_id_def sha256_hex_lower)
  show "expected_id h ids = sha256_hex (toString h @ concat ids)"
    by (simp add: expected_id_def)
  show "read_decimal (toString h) = h"
    by (rule read_decimal_toString)
  have a: "applyBlock L b \<noteq> (Some (INVALID_BLOCK_ID e g), Lp)" for Lp
    using applyBlock_error[of L b "INVALID_BLOCK_ID e g" Lp] by auto
  have v: "validateBlock L b = Some (INVALID_BLOCK_ID e g) \<longleftrightarrow>
        height b = of_int (getCurrentHeight L + 1) \<and>
        e = expected_id (getCurrentHeight L + 1) (map trans_id (transactions b)) \<and>
        g = block_id b \<and> g \<noteq> e"
    by (auto simp: validateBlock_admission_checks admission_checks_def Let_def input_error_def
        split: option.splits)
  show "processBlock L b = (Some (INVALID_BLOCK_ID e g), L') \<longleftrightarrow>
        height b = of_int (getCurrentHeight L + 1) \<and>
        e = expected_id (getCurrentHeight L + 1) (map trans_id (transactions b)) \<and>
        g = block_id b \<and> g \<noteq> e \<and> L' = L"
    unfolding processBlock_Some using a v by auto
qed

theorem block_identity_witness:
  "processBlock empty_ledger (genesis_block\<lparr>block_id := ''abc''\<rparr>) =
     (Some (INVALID_BLOCK_ID
        ''d1582b9e2cac15e170c39ef2e85855ffd7e6a820550a8ca16a2f016d366503dc'' ''abc''),
      empty_ledger)
   \<and> expected_id 1 [''tx1''] = sha256_hex ''1tx1''
   \<and> length (expected_id 1 [''tx1'']) = 64"
proof -
  note t = block_identity[where h = 1 and ids = "[''tx1'']" and L = empty_ledger
      and b = "genesis_block\<lparr>block_id := ''abc''\<rparr>"
      and e = "''d1582b9e2cac15e170c39ef2e85855ffd7e6a820550a8ca16a2f016d366503dc''"
      and g = "''abc''" and L' = empty_ledger]
  have c: "getCurrentHeight empty_ledger = 0"
    by (simp add: getCurrentHeight_def empty_ledger_def)
  have e: "expected_id 1 [''tx1''] =
      ''d1582b9e2cac15e170c39ef2e85855ffd7e6a820550a8ca16a2f016d366503dc''"
    by (simp add: expected_id_def toString_1 hash_1tx1)
  have p: "processBlock empty_ledger (genesis_block\<lparr>block_id := ''abc''\<rparr>) =
     (Some (INVALID_BLOCK_ID
        ''d1582b9e2cac15e170c39ef2e85855ffd7e6a820550a8ca16a2f016d366503dc'' ''abc''),
      empty_ledger)"
    using t c e by (simp add: genesis_block_def)
  have l: "length (expected_id 1 [''tx1'']) = 64"
    using t by (elim conjE)
  have x: "expected_id 1 [''tx1''] = sha256_hex ''1tx1''"
    by (simp add: expected_id_def toString_1)
  from p x l show ?thesis by (intro conjI)
qed


subsection \<open>Value conservation\<close>





subsection \<open>Order of the admission checks\<close>




subsection \<open>Structural validation\<close>

text \<open>
  C9, as the code has it. The validator accepts a body exactly when it is an object
  whose \<^verbatim>\<open>id\<close> is a non-empty string, whose \<^verbatim>\<open>height\<close> is a number not below 1 and whose
  \<^verbatim>\<open>transactions\<close> is an array of which every element passes the transaction validator;
  it accepts an input exactly when it is an object whose \<^verbatim>\<open>txId\<close> is a non-empty string
  and whose \<^verbatim>\<open>index\<close> is a number not below 0. Every input of an accepted block has a
  non-empty \<^verbatim>\<open>txId\<close> and an index not below 0. Nothing asks the numbers to be integers.
\<close>

theorem structural_validation:
  "(validateBlockSchema data = Inr b \<longleftrightarrow>
      is_object data \<and>
      (\<exists>s. get_prop data ''id'' = JStr s \<and> s \<noteq> [] \<and> block_id b = s) \<and>
      (\<exists>h. get_prop data ''height'' = JNum h \<and> 1 \<le> h \<and> height b = h) \<and>
      (\<exists>ts. get_prop data ''transactions'' = JArr ts \<and>
            map_throwing validateTransactionSchema ts = Inr (transactions b)))
   \<and> (validateBlockSchema data1 = Inr b1 \<longrightarrow>
        (\<forall>tx\<in>set (transactions b1). \<forall>i\<in>set (inputs tx). txId i \<noteq> [] \<and> 0 \<le> index i))
   \<and> (validateInputSchema d = Inr i \<longleftrightarrow>
        is_object d \<and> (\<exists>s. get_prop d ''txId'' = JStr s \<and> s \<noteq> [] \<and> txId i = s) \<and>
        (\<exists>x. get_prop d ''index'' = JNum x \<and> 0 \<le> x \<and> index i = x))"
proof (intro conjI impI ballI)
  show "validateBlockSchema data = Inr b \<longleftrightarrow>
      is_object data \<and>
      (\<exists>s. get_prop data ''id'' = JStr s \<and> s \<noteq> [] \<and> block_id b = s) \<and>
      (\<exists>h. get_prop data ''height'' = JNum h \<and> 1 \<le> h \<and> height b = h) \<and>
      (\<exists>ts. get_prop data ''transactions'' = JArr ts \<and>
            map_throwing validateTransactionSchema ts = Inr (transactions b))"
    by (rule validateBlockSchema_Inr)
  show "validateInputSchema d = Inr i \<longleftrightarrow>
        is_object d \<and> (\<exists>s. get_prop d ''txId'' = JStr s \<and> s \<noteq> [] \<and> txId i = s) \<and>
        (\<exists>x. get_prop d ''index'' = JNum x \<and> 0 \<le> x \<and> index i = x)"
    by (rule validateInputSchema_Inr)
next
  fix tx i
  assume v: "validateBlockSchema data1 = Inr b1" and tx: "tx \<in> set (transactions b1)"
    and i: "i \<in> set (inputs tx)"
  from v obtain ts where "map_throwing validateTransactionSchema ts = Inr (transactions b1)"
    by (auto simp: validateBlockSchema_Inr)
  then have "list_all2 (\<lambda>x y. validateTransactionSchema x = Inr y) ts (transactions b1)"
    by (rule map_throwing_Inr)
  with tx obtain d where "validateTransactionSchema d = Inr tx"
    by (auto dest: list_all2_rightD)
  from validateTransactionSchema_inputs[OF this] i
  show "txId i \<noteq> []" and "0 \<le> index i" by auto
qed

lemma fractional_accepted: "validateBlockSchema fractional_body = Inr fractional_block"
  by (simp add: validateBlockSchema_def validateTransactionSchema_def validateInputSchema_def
      fractional_body_def fractional_block_def)

theorem structural_validation_witness:
  "validateBlockSchema fractional_body = Inr fractional_block
   \<and> get_prop fractional_body ''height'' = JNum (3 / 2)
   \<and> list_all (\<lambda>tx. list_all (\<lambda>i. txId i \<noteq> [] \<and> 0 \<le> index i) (inputs tx))
        (transactions fractional_block)
   \<and> validateInputSchema (JObj [(''txId'', JStr ''t0''), (''index'', JNum (1 / 2))]) =
        Inr \<lparr>txId = ''t0'', index = 1 / 2\<rparr>"
proof -
  note t = structural_validation[where data = fractional_body and b = fractional_block
      and ?data1.0 = fractional_body and ?b1.0 = fractional_block
      and d = "JObj [(''txId'', JStr ''t0''), (''index'', JNum (1 / 2))]"
      and i = "\<lparr>txId = ''t0'', index = 1 / 2\<rparr>"]
  have h: "get_prop fractional_body ''height'' = JNum (3 / 2)"
    by (simp add: fractional_body_def)
  have i: "validateInputSchema (JObj [(''txId'', JStr ''t0''), (''index'', JNum (1 / 2))]) =
        Inr \<lparr>txId = ''t0'', index = 1 / 2\<rparr>"
    by (simp add: validateInputSchema_def)
  have "\<forall>tx\<in>set (transactions fractional_block). \<forall>i\<in>set (inputs tx). txId i \<noteq> [] \<and> 0 \<le> index i"
    using t fractional_accepted by blast
  then have a: "list_all (\<lambda>tx. list_all (\<lambda>i. txId i \<noteq> [] \<and> 0 \<le> index i) (inputs tx))
        (transactions fractional_block)"
    by (simp only: list_all_iff)
  from fractional_accepted h a i show ?thesis by (intro conjI)
qed

text \<open>
  C9, as the specification states it, fails: a body whose height is 1.5 and whose input
  index is 0.5 is accepted, and neither number is an integer.
\<close>

theorem integer_height_counterexample:
  "validateBlockSchema fractional_body = Inr fractional_block
   \<and> of_int \<lfloor>height fractional_block\<rfloor> \<noteq> height fractional_block
   \<and> of_int \<lfloor>index (hd (inputs (hd (transactions fractional_block))))\<rfloor>
       \<noteq> index (hd (inputs (hd (transactions fractional_block))))"
proof -
  have "\<lfloor>3 / 2 :: real\<rfloor> = 1" by linarith
  then have "real_of_int \<lfloor>3 / 2 :: real\<rfloor> = 1" by (simp only: of_int_1)
  then have h: "real_of_int \<lfloor>3 / 2 :: real\<rfloor> \<noteq> 3 / 2" by linarith
  have "\<lfloor>1 / 2 :: real\<rfloor> = 0" by linarith
  then have "real_of_int \<lfloor>1 / 2 :: real\<rfloor> = 0" by (simp only: of_int_0)
  then have i: "real_of_int \<lfloor>1 / 2 :: real\<rfloor> \<noteq> 1 / 2" by linarith
  have hb: "height fractional_block = 3 / 2"
    and ib: "index (hd (inputs (hd (transactions fractional_block)))) = 1 / 2"
    by (simp_all add: fractional_block_def)
  from fractional_accepted h i show ?thesis
    by (simp only: hb ib) simp
qed


subsection \<open>Atomicity\<close>

text \<open>
  C8. Block admission and rollback are atomic. \<^verbatim>\<open>processBlock\<close> either commits the state
  that all statements of the block have produced, or reports an error and leaves the
  store as it was: an error raised by any statement between BEGIN and COMMIT, a failed
  conditional \<^verbatim>\<open>markOutputAsSpent\<close> included, discards the state the statements had
  reached. The same holds for \<^verbatim>\<open>rollback\<close> and for any body run in a transaction of the
  store. Concurrent sessions are outside this model.
\<close>

theorem atomic_units:
  "(processBlock L b = (r, L') \<longrightarrow>
      (r = None \<and> validateBlock L b = None \<and> applyBlock L b = (None, L')) \<or>
      (r \<noteq> None \<and> L' = L))
   \<and> (validateBlock L1 b1 = None \<and> applyBlock L1 b1 = (Some e1, Lp) \<longrightarrow>
        processBlock L1 b1 = (Some e1, L1))
   \<and> (rollback env L2 t = (r2, L2') \<longrightarrow>
        (r2 = None \<and> revertBlocks t L2 = (None, L2')) \<or> (r2 \<noteq> None \<and> L2' = L2))
   \<and> (body L3 = (Some e3, Lq) \<longrightarrow> in_transaction L3 body = (Some e3, L3))"
proof (intro conjI impI)
  assume "processBlock L b = (r, L')"
  then show "(r = None \<and> validateBlock L b = None \<and> applyBlock L b = (None, L')) \<or>
      (r \<noteq> None \<and> L' = L)"
    by (cases r) (auto simp: processBlock_None processBlock_Some)
next
  assume "validateBlock L1 b1 = None \<and> applyBlock L1 b1 = (Some e1, Lp)"
  then show "processBlock L1 b1 = (Some e1, L1)"
    by (auto simp: processBlock_Some)
next
  assume "rollback env L2 t = (r2, L2')"
  then show "(r2 = None \<and> revertBlocks t L2 = (None, L2')) \<or> (r2 \<noteq> None \<and> L2' = L2)"
    by (auto simp: rollback_def in_transaction_def Let_def split: if_splits prod.splits option.splits)
next
  assume "body L3 = (Some e3, Lq)"
  then show "in_transaction L3 body = (Some e3, L3)"
    by (simp add: in_transaction_def)
qed

theorem atomic_units_witness:
  "applyBlock ledger1 block2_twice = (Some (OutputNotFoundOrSpent ''tx1'' 0), ledger1_partial)
   \<and> ledger1_partial \<noteq> ledger1
   \<and> processBlock ledger1 block2_twice = (Some (OutputNotFoundOrSpent ''tx1'' 0), ledger1)
   \<and> processBlock empty_ledger genesis_block = (None, ledger1)
   \<and> applyBlock empty_ledger genesis_block = (None, ledger1)
   \<and> rollback None ledger1 5 = (Some (FUTURE_HEIGHT 1 5), ledger1)
   \<and> in_transaction ledger1 (\<lambda>L. applyBlock L block2_twice) =
        (Some (OutputNotFoundOrSpent ''tx1'' 0), ledger1)"
proof -
  note t = atomic_units[where L = empty_ledger and b = genesis_block and r = None and L' = ledger1
      and ?L1.0 = ledger1 and ?b1.0 = block2_twice and ?e1.0 = "OutputNotFoundOrSpent ''tx1'' 0"
      and Lp = ledger1_partial and env = None and ?L2.0 = ledger1 and t = 5
      and ?r2.0 = "Some (FUTURE_HEIGHT 1 5)" and L2' = ledger1
      and body = "\<lambda>L. applyBlock L block2_twice" and ?L3.0 = ledger1
      and ?e3.0 = "OutputNotFoundOrSpent ''tx1'' 0" and Lq = ledger1_partial]
  have n: "ledger1_partial \<noteq> ledger1"
    by (simp add: ledger1_partial_def ledger1_def)
  have p: "processBlock ledger1 block2_twice = (Some (OutputNotFoundOrSpent ''tx1'' 0), ledger1)"
    using t block2_twice_valid block2_twice_partial by blast
  have a: "applyBlock empty_ledger genesis_block = (None, ledger1)"
    using t genesis_admitted by blast
  have i: "in_transaction ledger1 (\<lambda>L. applyBlock L block2_twice) =
        (Some (OutputNotFoundOrSpent ''tx1'' 0), ledger1)"
    using t block2_twice_partial by blast
  from block2_twice_partial n p genesis_admitted a rollback_future i show ?thesis
    by (intro conjI)
qed


subsection \<open>Rollback preconditions\<close>

text \<open>
  C6. \<^verbatim>\<open>rollback\<close> checks its target height \<open>t\<close> in this order: \<open>t < 0\<close> gives the
  parameter error, \<open>t > currentHeight\<close> gives the future-height error,
  \<open>currentHeight - t > maxRollbackBlocks\<close> gives the excessive-rollback error, each with
  the store unchanged; \<open>maxRollbackBlocks\<close> is 2000 unless the environment sets it.
  When none applies, in any state the handlers can reach, the rollback succeeds and the
  current height afterwards is \<open>t\<close>.
\<close>

theorem rollback_preconditions:
  "rollback env L t =
     (if t < 0 then (Some INVALID_HEIGHT_PARAMETER, L)
      else if t > getCurrentHeight L then (Some (FUTURE_HEIGHT (getCurrentHeight L) t), L)
      else if getCurrentHeight L - t > maxRollbackBlocks env
        then (Some (EXCESSIVE_ROLLBACK (maxRollbackBlocks env) (getCurrentHeight L) t), L)
      else (None, snd (revertBlocks t L)))
   \<and> maxRollbackBlocks None = 2000
   \<and> (reachable L1 \<and> 0 \<le> t1 \<and> t1 \<le> getCurrentHeight L1 \<and>
        getCurrentHeight L1 - t1 \<le> maxRollbackBlocks env1 \<longrightarrow>
        (\<exists>L'. rollback env1 L1 t1 = (None, L') \<and> getCurrentHeight L' = t1))"
proof (intro conjI impI)
  show "rollback env L t =
     (if t < 0 then (Some INVALID_HEIGHT_PARAMETER, L)
      else if t > getCurrentHeight L then (Some (FUTURE_HEIGHT (getCurrentHeight L) t), L)
      else if getCurrentHeight L - t > maxRollbackBlocks env
        then (Some (EXCESSIVE_ROLLBACK (maxRollbackBlocks env) (getCurrentHeight L) t), L)
      else (None, snd (revertBlocks t L)))"
    by (simp add: rollback_def Let_def in_transaction_def revertBlocks_eq)
  show "maxRollbackBlocks None = 2000"
    by (simp add: maxRollbackBlocks_def)
  assume h: "reachable L1 \<and> 0 \<le> t1 \<and> t1 \<le> getCurrentHeight L1 \<and>
        getCurrentHeight L1 - t1 \<le> maxRollbackBlocks env1"
  then have c: "heights_contiguous L1"
    using reachable_wf[of L1] by (simp add: wf_ledger_def)
  obtain L' where r: "revertBlocks t1 L1 = (None, L')"
    by (simp add: revertBlocks_eq)
  from h r have "rollback env1 L1 t1 = (None, L')"
    by (simp add: rollback_None)
  moreover from revertBlocks_height(1)[OF r c] h have "getCurrentHeight L' = t1" by simp
  ultimately show "\<exists>L'. rollback env1 L1 t1 = (None, L') \<and> getCurrentHeight L' = t1"
    by blast
qed

theorem rollback_preconditions_witness:
  "rollback None ledger2 (- 1) = (Some INVALID_HEIGHT_PARAMETER, ledger2)
   \<and> rollback None ledger2 5 = (Some (FUTURE_HEIGHT 2 5), ledger2)
   \<and> rollback (Some 0) ledger2 1 = (Some (EXCESSIVE_ROLLBACK 0 2 1), ledger2)
   \<and> rollback None ledger2 1 = (None, ledger1)
   \<and> reachable ledger2 \<and> getCurrentHeight ledger2 = 2 \<and> getCurrentHeight ledger1 = 1"
proof -
  have a: "rollback None ledger2 (- 1) = (Some INVALID_HEIGHT_PARAMETER, ledger2)"
    using rollback_preconditions[of None ledger2 "- 1"] by simp
  have b: "rollback None ledger2 5 = (Some (FUTURE_HEIGHT 2 5), ledger2)"
    using rollback_preconditions[of None ledger2 5] by (simp add: height_ledger2)
  have c: "rollback (Some 0) ledger2 1 = (Some (EXCESSIVE_ROLLBACK 0 2 1), ledger2)"
    using rollback_preconditions[of "Some 0" ledger2 1]
    by (simp add: height_ledger2 maxRollbackBlocks_def)
  have h: "reachable ledger2 \<and> (0::int) \<le> 1 \<and> 1 \<le> getCurrentHeight ledger2 \<and>
        getCurrentHeight ledger2 - 1 \<le> maxRollbackBlocks None"
    by (simp add: reachable_ledger2 height_ledger2 maxRollbackBlocks_def)
  have "\<exists>L'. rollback None ledger2 1 = (None, L') \<and> getCurrentHeight L' = 1"
    using rollback_preconditions[where env = None and L = ledger2 and t = 1
        and ?L1.0 = ledger2 and ?t1.0 = 1 and ?env1.0 = None] h
    by blast
  with rollback_ledger2 have d: "rollback None ledger2 1 = (None, ledger1)"
    and e: "getCurrentHeight ledger1 = 1"
    by auto
  from a b c d reachable_ledger2 height_ledger2 e show ?thesis by (intro conjI)
qed


subsection \<open>Balance\<close>


lemma balances_ledger1:
  "getBalance ledger1 ''addr1'' = 100" "getBalance ledger1 ''addr2'' = 0"
  by (simp_all add: getBalance_def getBalanceForAddress_def ledger1_def)




subsection \<open>Apply, then roll back\<close>

text \<open>
  C5. In every state \<open>S\<close> the handlers can reach, if block \<open>B\<close> is admitted, leading to
  \<open>S'\<close>, then the rollback of \<open>S'\<close> to height \<open>B.height - 1\<close> succeeds (the maximum depth
  being at least 1) and gives back \<open>S\<close> itself; in particular the unspent outputs are
  those of \<open>S\<close>. No output of \<open>S\<close> is owned by a transaction of \<open>B\<close>: the outputs \<open>B\<close>
  created are gone. Every older output that a transaction of \<open>B\<close> had spent is in \<open>S\<close>
  again as an unspent row with its spender columns cleared.
\<close>

theorem apply_then_rollback:
  "reachable S \<and> processBlock S B = (None, S') \<and> 1 \<le> maxRollbackBlocks env \<longrightarrow>
     rollback env S' (\<lfloor>height B\<rfloor> - 1) = (None, S)
     \<and> {r \<in> set (outputs_tbl (snd (rollback env S' (\<lfloor>height B\<rfloor> - 1)))). \<not> spent r} =
         {r \<in> set (outputs_tbl S). \<not> spent r}
     \<and> (\<forall>r \<in> set (outputs_tbl S). tx_id r \<notin> trans_id ` set (transactions B))
     \<and> (\<forall>r' \<in> set (outputs_tbl S').
           tx_id r' \<notin> trans_id ` set (transactions B) \<and>
           spent_by_tx r' \<in> Some ` trans_id ` set (transactions B) \<longrightarrow>
             unspend r' \<in> set (outputs_tbl S) \<and> \<not> spent (unspend r') \<and>
             spent_by_tx (unspend r') = None \<and> spent_by_index (unspend r') = None)"
proof (intro impI)
  let ?T = "trans_id ` set (transactions B)"
  assume h: "reachable S \<and> processBlock S B = (None, S') \<and> 1 \<le> maxRollbackBlocks env"
  then have w: "wf_ledger S" using reachable_wf[of S] by simp
  then have hc: "heights_contiguous S" and ri: "references_intact S"
    and sr: "spenders_recorded S"
    by (simp_all add: wf_ledger_def rows_consistent_def)
  from h have p: "processBlock S B = (None, S')" by simp
  then have a: "applyBlock S B = (None, S')" by (simp add: processBlock_None)
  note ph = processBlock_height[OF p]
  from ph(1) have t: "\<lfloor>height B\<rfloor> - 1 = getCurrentHeight S" by simp
  from revert_applied[OF a ph(1) w] have rv: "revertBlocks (getCurrentHeight S) S' = (None, S)" .
  from heights_contiguous_nonneg[OF hc] ph(2) h rv
  have rb: "rollback env S' (\<lfloor>height B\<rfloor> - 1) = (None, S)"
    by (simp add: rollback_None t)
  note tb = applyBlock_tables[OF a]
  from sr have rec: "\<forall>r \<in> set (outputs_tbl S). spender_recorded S r"
    by (simp add: spenders_recorded_def)
  have c: "\<forall>r \<in> set (outputs_tbl S). tx_id r \<notin> ?T"
  proof
    fix r assume "r \<in> set (outputs_tbl S)"
    then have "tx_id r \<in> tx_id ` set (outputs_tbl S)" by simp
    with ri have "tx_id r \<in> fst ` set (transactions_tbl S)"
      by (auto simp: references_intact_def)
    with tb(3) show "tx_id r \<notin> ?T" by blast
  qed
  have d: "\<forall>r' \<in> set (outputs_tbl S').
           tx_id r' \<notin> ?T \<and> spent_by_tx r' \<in> Some ` ?T \<longrightarrow>
             unspend r' \<in> set (outputs_tbl S) \<and> \<not> spent (unspend r') \<and>
             spent_by_tx (unspend r') = None \<and> spent_by_index (unspend r') = None"
  proof (intro ballI impI)
    fix r' assume r': "r' \<in> set (outputs_tbl S')"
      and g: "tx_id r' \<notin> ?T \<and> spent_by_tx r' \<in> Some ` ?T"
    from g have n: "tx_id r' \<notin> ?T" and s: "spent_by_tx r' \<in> Some ` ?T" by simp_all
    from spent_by_applied[OF tb(4) r' n rec tb(3)] s
    have "unspend r' \<in> set (outputs_tbl S)" by (simp add: unspend_in_def)
    then show "unspend r' \<in> set (outputs_tbl S) \<and> \<not> spent (unspend r') \<and>
             spent_by_tx (unspend r') = None \<and> spent_by_index (unspend r') = None"
      by (simp add: unspend_def)
  qed
  from rb c d show "rollback env S' (\<lfloor>height B\<rfloor> - 1) = (None, S)
     \<and> {r \<in> set (outputs_tbl (snd (rollback env S' (\<lfloor>height B\<rfloor> - 1)))). \<not> spent r} =
         {r \<in> set (outputs_tbl S). \<not> spent r}
     \<and> (\<forall>r \<in> set (outputs_tbl S). tx_id r \<notin> ?T)
     \<and> (\<forall>r' \<in> set (outputs_tbl S').
           tx_id r' \<notin> ?T \<and> spent_by_tx r' \<in> Some ` ?T \<longrightarrow>
             unspend r' \<in> set (outputs_tbl S) \<and> \<not> spent (unspend r') \<and>
             spent_by_tx (unspend r') = None \<and> spent_by_index (unspend r') = None)"
    by simp
qed

theorem apply_then_rollback_witness:
  "reachable ledger1 \<and> processBlock ledger1 block2 = (None, ledger2)
   \<and> 1 \<le> maxRollbackBlocks None
   \<and> rollback None ledger2 1 = (None, ledger1)
   \<and> {r \<in> set (outputs_tbl ledger1). \<not> spent r} =
        {\<lparr>tx_id = ''tx1'', output_index = 0, address = ''addr1'', value = 100,
          spent = False, spent_by_tx = None, spent_by_index = None\<rparr>}
   \<and> getBalance ledger1 ''addr1'' = 100"
proof -
  have m: "1 \<le> maxRollbackBlocks None" by (simp add: maxRollbackBlocks_def)
  have f: "\<lfloor>height block2\<rfloor> - 1 = 1" by (simp add: block2_def)
  from apply_then_rollback[where S = ledger1 and B = block2 and S' = ledger2 and env = None]
    reachable_ledger1 block2_admitted m
  have "rollback None ledger2 (\<lfloor>height block2\<rfloor> - 1) = (None, ledger1)" by blast
  then have r: "rollback None ledger2 1 = (None, ledger1)" by (simp only: f)
  have u: "{r \<in> set (outputs_tbl ledger1). \<not> spent r} =
        {\<lparr>tx_id = ''tx1'', output_index = 0, address = ''addr1'', value = 100,
          spent = False, spent_by_tx = None, spent_by_index = None\<rparr>}"
    by (auto simp: ledger1_def)
  from reachable_ledger1 block2_admitted m r u balances_ledger1(1) show ?thesis
    by (intro conjI)
qed


subsection \<open>An output referenced twice in one block\<close>

text \<open>
  C10, as the code has it. A block in which two inputs reference the same output is
  never admitted, and the store is left unchanged. The input check does not see the
  repetition: when every referenced output exists and is unspent before the block,
  admission ends with neither the referential nor the double-spend error. The value of
  the repeated output is counted once per reference, so validation may still refuse
  the block; when the block passes validation, a statement of the apply phase fails
  with a plain error (status 500) - the conditional update of \<^verbatim>\<open>markOutputAsSpent\<close> that
  matches no row, unless the store has refused an earlier statement - and the
  transaction is rolled back.
\<close>

theorem repeated_input_block:
  "\<not> distinct (map input_key (all_inputs b)) \<longrightarrow>
     (\<exists>e. processBlock L b = (Some e, L))
     \<and> ((\<forall>i \<in> set (all_inputs b). \<not> unusable L i) \<longrightarrow>
          (\<forall>t x. fst (processBlock L b) \<noteq> Some (INVALID_INPUT t x) \<and>
                 fst (processBlock L b) \<noteq> Some (DOUBLE_SPEND t x)))
     \<and> (validateBlock L b = None \<longrightarrow>
          (\<exists>e Lp. applyBlock L b = (Some e, Lp) \<and> class_of e = PlainError \<and>
                  statusCode e = 500 \<and> processBlock L b = (Some e, L)))"
proof (intro impI conjI allI)
  assume r: "\<not> distinct (map input_key (all_inputs b))"
  from applyBlock_repeated[OF r, of L] obtain e Lp
    where a: "applyBlock L b = (Some e, Lp)" and c: "class_of e = PlainError"
    by blast
  show "\<exists>e. processBlock L b = (Some e, L)"
  proof (cases "validateBlock L b")
    case None
    with a have "processBlock L b = (Some e, L)" by (simp add: processBlock_Some)
    then show ?thesis by blast
  next
    case (Some e')
    then have "processBlock L b = (Some e', L)" by (rule processBlock_refused)
    then show ?thesis by blast
  qed
  show "\<exists>e Lp. applyBlock L b = (Some e, Lp) \<and> class_of e = PlainError \<and>
                  statusCode e = 500 \<and> processBlock L b = (Some e, L)"
    if "validateBlock L b = None"
    using that a c by (auto simp: processBlock_Some)
next
  fix t x
  assume u: "\<forall>i \<in> set (all_inputs b). \<not> unusable L i"
  then have f: "find (unusable L) (all_inputs b) = None"
    by (simp add: find_None_iff)
  have v: "validateBlock L b \<noteq> Some (INVALID_INPUT t x)" "validateBlock L b \<noteq> Some (DOUBLE_SPEND t x)"
    by (auto simp: validateBlock_admission_checks admission_checks_def Let_def f)
  have a: "applyBlock L b \<noteq> (Some (INVALID_INPUT t x), Lp)"
    "applyBlock L b \<noteq> (Some (DOUBLE_SPEND t x), Lp)" for Lp
    using applyBlock_error[of L b "INVALID_INPUT t x" Lp]
      applyBlock_error[of L b "DOUBLE_SPEND t x" Lp] by auto
  from v a show "fst (processBlock L b) \<noteq> Some (INVALID_INPUT t x)"
    by (cases "processBlock L b") (auto simp: processBlock_Some)
  from v a show "fst (processBlock L b) \<noteq> Some (DOUBLE_SPEND t x)"
    by (cases "processBlock L b") (auto simp: processBlock_Some)
qed

theorem repeated_input_block_witness:
  "\<not> distinct (map input_key (all_inputs block2_twice))
   \<and> list_all (\<lambda>i. \<not> unusable ledger1 i) (all_inputs block2_twice)
   \<and> validateBlock ledger1 block2_twice = None
   \<and> applyBlock ledger1 block2_twice = (Some (OutputNotFoundOrSpent ''tx1'' 0), ledger1_partial)
   \<and> processBlock ledger1 block2_twice = (Some (OutputNotFoundOrSpent ''tx1'' 0), ledger1)
   \<and> class_of (OutputNotFoundOrSpent ''tx1'' 0) = PlainError
   \<and> fst (processBlock ledger1 block2_twice) \<noteq> Some (DOUBLE_SPEND ''tx1'' 0)"
proof -
  note t = repeated_input_block[where b = block2_twice and L = ledger1]
  have u: "\<forall>i \<in> set (all_inputs block2_twice). \<not> unusable ledger1 i"
    by (simp add: all_inputs_def block2_twice_def unusable_def tx1_unspent_ledger1)
  from t block2_twice_repeats(1) block2_twice_valid
  obtain e Lp where "applyBlock ledger1 block2_twice = (Some e, Lp)"
    and p: "processBlock ledger1 block2_twice = (Some e, ledger1)"
    by blast
  with block2_twice_partial have "e = OutputNotFoundOrSpent ''tx1'' 0" by simp
  with p have p': "processBlock ledger1 block2_twice =
      (Some (OutputNotFoundOrSpent ''tx1'' 0), ledger1)" by simp
  from t block2_twice_repeats(1) u
  have d: "fst (processBlock ledger1 block2_twice) \<noteq> Some (DOUBLE_SPEND ''tx1'' 0)"
    by blast
  have c: "class_of (OutputNotFoundOrSpent ''tx1'' 0) = PlainError" by simp
  from u have u': "list_all (\<lambda>i. \<not> unusable ledger1 i) (all_inputs block2_twice)"
    by (simp only: list_all_iff)
  from block2_twice_repeats(1) u' block2_twice_valid block2_twice_partial p' c d
  show ?thesis by (intro conjI)
qed

text \<open>
  C10, as it is stated, fails: the block below references the unspent output \<^verbatim>\<open>tx1:0\<close>
  twice and creates an output worth 100. Its failure does not surface in the apply
  phase; validation refuses it with the conservation error, the inputs adding up to 200.
\<close>

theorem repeated_input_counterexample:
  "all_inputs block2_twice_short = [\<lparr>txId = ''tx1'', index = 0\<rparr>, \<lparr>txId = ''tx1'', index = 0\<rparr>]
   \<and> getOutput ledger1 ''tx1'' 0 =
       Some \<lparr>tx_id = ''tx1'', output_index = 0, address = ''addr1'', value = 100,
             spent = False, spent_by_tx = None, spent_by_index = None\<rparr>
   \<and> validateBlock ledger1 block2_twice_short = Some (VALUE_MISMATCH 200 100)
   \<and> processBlock ledger1 block2_twice_short = (Some (VALUE_MISMATCH 200 100), ledger1)
   \<and> class_of (VALUE_MISMATCH 200 100) = ValidationError"
proof -
  have a: "all_inputs block2_twice_short =
      [\<lparr>txId = ''tx1'', index = 0\<rparr>, \<lparr>txId = ''tx1'', index = 0\<rparr>]"
    by (simp add: all_inputs_def block2_twice_short_def)
  have v: "validateBlock ledger1 block2_twice_short = Some (VALUE_MISMATCH 200 100)"
    by (simp add: validateBlock_def height_ledger1 block2_twice_short_def
        validateTransactionBalances_def tx1_unspent_ledger1)
  from processBlock_refused[OF v] a tx1_unspent_ledger1 v show ?thesis by simp
qed

end
